theory Spec2Isabelle
  imports Complex_Main
begin

section \<open>JavaScript values, ADF nodes and generic (mdast) nodes\<close>

text \<open>
  Attribute values are JSON values. A JavaScript object is an association list in
  insertion order, since \<^verbatim>\<open>Object.entries\<close> and \<^verbatim>\<open>Object.keys\<close> enumerate
  in that order (keys that are array indices, which JavaScript lists first, are not told
  apart). Numbers are kept exact (a rational, or an infinity); \<^verbatim>\<open>NaN\<close> never
  reaches an attribute in the code below and is the \<open>None\<close> of \<open>js_Number\<close>.
\<close>

datatype jnum = Fin rat | Inf bool

datatype jval = JStr string | JNum jnum | JBool bool | JObj "(string \<times> jval) list"

type_synonym attrs = "(string \<times> jval) list"

fun obj_set :: "attrs \<Rightarrow> string \<Rightarrow> jval \<Rightarrow> attrs" where
  "obj_set [] k v = [(k, v)]"
| "obj_set ((k', v') # kvs) k v = (if k' = k then (k, v) # kvs else (k', v') # obj_set kvs k v)"

text \<open>\<^verbatim>\<open>{ ...a, ...b }\<close> and \<^verbatim>\<open>Object.assign(a, b)\<close>.\<close>

definition obj_merge :: "attrs \<Rightarrow> attrs \<Rightarrow> attrs" where
  "obj_merge a b = foldl (\<lambda>acc (k, v). obj_set acc k v) a b"

datatype mark = Mark (mark_type: string) (mark_attrs: "attrs option")

text \<open>\<^verbatim>\<open>ADFNode\<close>: \<^verbatim>\<open>{type, attrs?, content?, text?, marks?}\<close>.\<close>

datatype adf = Adf (atype: string) (aattrs: "attrs option") (acontent: "adf list option")
  (atext: "string option") (amarks: "mark list option")

text \<open>\<^verbatim>\<open>AdfMetadata\<close> of metadata-comments.ts.\<close>

datatype metadata = Metadata (md_nodeType: string) (md_attrs: "attrs option") (md_raw: string)
  (md_marks: "mark list option")

text \<open>
  A node of the generic markup tree: its \<^verbatim>\<open>type\<close>, its \<^verbatim>\<open>value\<close> when it has one,
  its \<^verbatim>\<open>children\<close> (empty when it has none), its other scalar properties
  (\<^verbatim>\<open>depth\<close>, \<^verbatim>\<open>url\<close>, \<^verbatim>\<open>lang\<close>, \<^verbatim>\<open>meta\<close>, \<^verbatim>\<open>nodeType\<close>, \<^verbatim>\<open>attributes\<close>, ...)
  and \<^verbatim>\<open>data.adfMetadata\<close>.
\<close>

datatype mdast = Mdast (mtype: string) (mvalue: "string option") (mchildren: "mdast list")
  (mprops: attrs) (mmeta: "metadata list")

section \<open>Strings\<close>

definition in_range :: "char \<Rightarrow> char \<Rightarrow> char \<Rightarrow> bool" where
  "in_range lo hi c = ((of_char lo :: nat) \<le> of_char c \<and> (of_char c :: nat) \<le> of_char hi)"

definition is_digit :: "char \<Rightarrow> bool" where
  "is_digit c = in_range CHR ''0'' CHR ''9'' c"

text \<open>The class \<^verbatim>\<open>\w\<close>.\<close>

definition is_word :: "char \<Rightarrow> bool" where
  "is_word c = (in_range CHR ''a'' CHR ''z'' c \<or> in_range CHR ''A'' CHR ''Z'' c
     \<or> is_digit c \<or> c = CHR ''_'')"

text \<open>
  The class \<^verbatim>\<open>\s\<close>, which is also what \<^verbatim>\<open>trim\<close> strips: tab, line feed,
  vertical tab, form feed, carriage return, space and the no-break space (the white space
  and line terminators below code 256).
\<close>

definition is_space :: "char \<Rightarrow> bool" where
  "is_space c = ((of_char c :: nat) \<in> {9, 10, 11, 12, 13, 32, 160})"

definition trim :: "string \<Rightarrow> string" where
  "trim s = rev (dropWhile is_space (rev (dropWhile is_space s)))"

fun startsWith :: "string \<Rightarrow> string \<Rightarrow> bool" where
  "startsWith s [] = True"
| "startsWith [] (p # ps) = False"
| "startsWith (c # cs) (p # ps) = (c = p \<and> startsWith cs ps)"

fun str_includes :: "string \<Rightarrow> string \<Rightarrow> bool" where
  "str_includes [] sub = (sub = [])"
| "str_includes (c # cs) sub = (startsWith (c # cs) sub \<or> str_includes cs sub)"

section \<open>Regular expressions\<close>

text \<open>
  The patterns of the source are JavaScript regular expressions. They are matched by
  backtracking: for a pattern and a position, \<open>rmatch\<close> lists every way the pattern can
  match there, in the order in which the backtracking matcher tries them (a greedy
  quantifier tries more repetitions first, a lazy one fewer, an alternation its left branch
  first). The head of the list is the match JavaScript reports. A matcher state is the text
  before the position (reversed), the text from the position on and the capture groups
  closed so far.
\<close>

datatype citem = CChr char | CRng char char | CWord | CDigit | CSpace

fun citem_has :: "citem \<Rightarrow> char \<Rightarrow> bool" where
  "citem_has (CChr d) c = (c = d)"
| "citem_has (CRng lo hi) c = in_range lo hi c"
| "citem_has CWord c = is_word c"
| "citem_has CDigit c = is_digit c"
| "citem_has CSpace c = is_space c"

definition cls_has :: "citem list \<Rightarrow> char \<Rightarrow> bool" where
  "cls_has its c = list_ex (\<lambda>i. citem_has i c) its"

datatype rx =
    Eps
  | Cls "citem list"
  | NCls "citem list"
  | Dot
  | Seq rx rx
  | Alt rx rx
  | Star rx
  | LStar rx
  | Grp nat rx
  | Bol
  | Eol
  | BolM
  | EolM
  | NLook rx
  | NBehind "citem list"

type_synonym caps = "(nat \<times> string) list"
type_synonym rstate = "string \<times> string \<times> caps"

definition is_newline :: "char \<Rightarrow> bool" where
  "is_newline c = (c = CHR 0x0A \<or> c = CHR 0x0D)"

text \<open>
  Repetition: an iteration that consumes nothing is not taken, as in ECMAScript; at most as
  many iterations as there are characters left can therefore happen.
\<close>

fun iter :: "nat \<Rightarrow> bool \<Rightarrow> (rstate \<Rightarrow> rstate list) \<Rightarrow> rstate \<Rightarrow> rstate list" where
  "iter 0 greedy f st = [st]"
| "iter (Suc n) greedy f st =
     (let more = concat (map (iter n greedy f)
                   (filter (\<lambda>st'. length (fst (snd st')) < length (fst (snd st))) (f st)))
      in if greedy then more @ [st] else st # more)"

fun step_char :: "(char \<Rightarrow> bool) \<Rightarrow> rstate \<Rightarrow> rstate list" where
  "step_char p (pre, [], cs) = []"
| "step_char p (pre, c # rest, cs) = (if p c then [(c # pre, rest, cs)] else [])"

primrec rmatch :: "rx \<Rightarrow> rstate \<Rightarrow> rstate list" where
  "rmatch Eps st = [st]"
| "rmatch (Cls its) st = step_char (cls_has its) st"
| "rmatch (NCls its) st = step_char (\<lambda>c. \<not> cls_has its c) st"
| "rmatch Dot st = step_char (\<lambda>c. \<not> is_newline c) st"
| "rmatch (Seq a b) st = concat (map (rmatch b) (rmatch a st))"
| "rmatch (Alt a b) st = rmatch a st @ rmatch b st"
| "rmatch (Star a) st = iter (length (fst (snd st))) True (rmatch a) st"
| "rmatch (LStar a) st = iter (length (fst (snd st))) False (rmatch a) st"
| "rmatch (Grp n a) st =
     map (\<lambda>(pre', rest', cs').
            (pre', rest', (n, take (length (fst (snd st)) - length rest') (fst (snd st))) # cs'))
         (rmatch a st)"
| "rmatch Bol st = (if fst st = [] then [st] else [])"
| "rmatch Eol st = (if fst (snd st) = [] then [st] else [])"
| "rmatch BolM st = (case fst st of [] \<Rightarrow> [st] | c # _ \<Rightarrow> if is_newline c then [st] else [])"
| "rmatch EolM st = (case fst (snd st) of [] \<Rightarrow> [st] | c # _ \<Rightarrow> if is_newline c then [st] else [])"
| "rmatch (NLook a) st = (if rmatch a st = [] then [st] else [])"
| "rmatch (NBehind its) st =
     (case fst st of [] \<Rightarrow> [st] | c # _ \<Rightarrow> if cls_has its c then [] else [st])"

fun rx_lit :: "string \<Rightarrow> rx" where
  "rx_lit [] = Eps"
| "rx_lit [c] = Cls [CChr c]"
| "rx_lit (c # cs) = Seq (Cls [CChr c]) (rx_lit cs)"

definition rx_plus :: "rx \<Rightarrow> rx" where
  "rx_plus a = Seq a (Star a)"

definition rx_lplus :: "rx \<Rightarrow> rx" where
  "rx_lplus a = Seq a (LStar a)"

definition rx_opt :: "rx \<Rightarrow> rx" where
  "rx_opt a = Alt a Eps"

fun rx_times :: "nat \<Rightarrow> rx \<Rightarrow> rx" where
  "rx_times 0 a = Eps"
| "rx_times (Suc n) a = (if n = 0 then a else Seq a (rx_times n a))"

fun rx_seqs :: "rx list \<Rightarrow> rx" where
  "rx_seqs [] = Eps"
| "rx_seqs [a] = a"
| "rx_seqs (a # as) = Seq a (rx_seqs as)"

text \<open>The result of \<^verbatim>\<open>String.prototype.match\<close> / \<^verbatim>\<open>RegExp.prototype.exec\<close>.\<close>

record rxmatch =
  m_index :: nat
  m_whole :: string
  m_groups :: caps

text \<open>The leftmost position at which the pattern matches, and the first match there.\<close>

fun rsearch :: "rx \<Rightarrow> string \<Rightarrow> string \<Rightarrow> rxmatch option" where
  "rsearch r pre rest =
     (case rmatch r (pre, rest, []) of
        (pre', rest', cs) # _ \<Rightarrow>
          Some \<lparr>m_index = length pre, m_whole = take (length rest - length rest') rest,
                m_groups = cs\<rparr>
      | [] \<Rightarrow> (case rest of [] \<Rightarrow> None | c # rest2 \<Rightarrow> rsearch r (c # pre) rest2))"

definition rx_exec :: "rx \<Rightarrow> string \<Rightarrow> rxmatch option" where
  "rx_exec r s = rsearch r [] s"

definition rx_test :: "rx \<Rightarrow> string \<Rightarrow> bool" where
  "rx_test r s = (rx_exec r s \<noteq> None)"

text \<open>Capture group \<open>n\<close> of a match; \<open>None\<close> is JavaScript's \<^verbatim>\<open>undefined\<close>.\<close>

definition grp :: "rxmatch \<Rightarrow> nat \<Rightarrow> string option" where
  "grp m n = map_of (m_groups m) n"

definition grp_str :: "rxmatch \<Rightarrow> nat \<Rightarrow> string" where
  "grp_str m n = (case grp m n of Some s \<Rightarrow> s | None \<Rightarrow> [])"

section \<open>Annotation comments (metadata-comments.ts)\<close>

definition rx_ws :: rx where
  "rx_ws = Star (Cls [CSpace])"

definition rx_ws1 :: rx where
  "rx_ws1 = rx_plus (Cls [CSpace])"

text \<open>\<^verbatim>\<open>([a-zA-Z][a-zA-Z0-9]*)\<close>\<close>

definition rx_kind :: "nat \<Rightarrow> rx" where
  "rx_kind n = Grp n (Seq (Cls [CRng CHR ''a'' CHR ''z'', CRng CHR ''A'' CHR ''Z''])
     (Star (Cls [CRng CHR ''a'' CHR ''z'', CRng CHR ''A'' CHR ''Z'', CRng CHR ''0'' CHR ''9''])))"

text \<open>\<^verbatim>\<open>/^<!--\s*adf:([a-zA-Z][a-zA-Z0-9]*)\s+attrs='({.*?})'\s*-->$/\<close>\<close>

definition withAttrsJson :: rx where
  "withAttrsJson = rx_seqs [Bol, rx_lit ''<!--'', rx_ws, rx_lit ''adf:'', rx_kind 1, rx_ws1,
     rx_lit (''attrs='' @ [CHR 0x27]),
     Grp 2 (rx_seqs [rx_lit ''{'', LStar Dot, rx_lit ''}'']),
     rx_lit [CHR 0x27], rx_ws, rx_lit ''-->'', Eol]"

text \<open>\<^verbatim>\<open>/^<!--\s*adf:([a-zA-Z][a-zA-Z0-9]*)\s+(.+?)\s*-->$/\<close>\<close>

definition withAttrs :: rx where
  "withAttrs = rx_seqs [Bol, rx_lit ''<!--'', rx_ws, rx_lit ''adf:'', rx_kind 1, rx_ws1,
     Grp 2 (rx_lplus Dot), rx_ws, rx_lit ''-->'', Eol]"

text \<open>\<^verbatim>\<open>/^<!--\s*adf:([a-zA-Z][a-zA-Z0-9]*)\s*-->$/\<close>\<close>

definition simple :: rx where
  "simple = rx_seqs [Bol, rx_lit ''<!--'', rx_ws, rx_lit ''adf:'', rx_kind 1, rx_ws,
     rx_lit ''-->'', Eol]"

text \<open>\<^verbatim>\<open>/^<!--\s*\/adf:([a-zA-Z][a-zA-Z0-9]*)\s*-->$/\<close>\<close>

definition closing :: rx where
  "closing = rx_seqs [Bol, rx_lit ''<!--'', rx_ws, rx_lit ''/adf:'', rx_kind 1, rx_ws,
     rx_lit ''-->'', Eol]"

definition isAdfMetadataComment :: "string \<Rightarrow> bool" where
  "isAdfMetadataComment v =
     (let isMetadataPattern = (rx_test withAttrsJson v \<or> rx_test withAttrs v
            \<or> rx_test simple v \<or> rx_test closing v)
      in if \<not> isMetadataPattern then False
         else \<not> list_ex (\<lambda>directive. str_includes v (''adf:'' @ directive))
                  [''inlineCard'', ''blockCard''])"

text \<open>
  \<^verbatim>\<open>candidate.type !== 'html' || !isAdfMetadataComment(candidate.value)\<close>: the sibling
  is not an annotation. An \<^verbatim>\<open>html\<close> node without a value is tested as the string
  \<^verbatim>\<open>undefined\<close>.
\<close>

definition notAnnotation :: "mdast \<Rightarrow> bool" where
  "notAnnotation candidate =
     (mtype candidate \<noteq> ''html''
      \<or> \<not> isAdfMetadataComment (case mvalue candidate of Some v \<Rightarrow> v | None \<Rightarrow> ''undefined''))"

text \<open>
  The node that \<^verbatim>\<open>findMetadataTarget\<close> returns is named by where it is: the parent
  itself, or the child of the parent at an index.
\<close>

datatype target = TParent | TChild nat

text \<open>Strategy 2, \<^verbatim>\<open>for (let i = commentIndex + 1; i < parent.children.length; i++)\<close>.\<close>

function nextTarget :: "mdast list \<Rightarrow> nat \<Rightarrow> nat option" where
  "nextTarget cs i =
     (if i < length cs then (if notAnnotation (cs ! i) then Some i else nextTarget cs (i + 1))
      else None)"
  by pat_completeness auto
termination
  by (relation "measure (\<lambda>(cs, i). length cs - i)") auto

declare nextTarget.simps [simp del]

text \<open>
  Strategy 3, \<^verbatim>\<open>for (let i = commentIndex - 1; i >= 0; i--)\<close>; the argument is the
  number of indices still to visit, \<open>i + 1\<close>. An index beyond the children reads
  \<^verbatim>\<open>undefined\<close>, whose \<^verbatim>\<open>type\<close> raises.
\<close>

datatype error = TypeError | Error string

fun prevTarget :: "mdast list \<Rightarrow> nat \<Rightarrow> error + nat option" where
  "prevTarget cs 0 = Inr None"
| "prevTarget cs (Suc i) =
     (if i < length cs then (if notAnnotation (cs ! i) then Inr (Some i) else prevTarget cs i)
      else Inl TypeError)"

definition findMetadataTarget :: "mdast \<Rightarrow> nat \<Rightarrow> error + target option" where
  "findMetadataTarget parent commentIndex =
     (if mtype parent = ''heading'' \<or> mtype parent = ''paragraph''
         \<or> mtype parent = ''tableCell'' \<or> mtype parent = ''tableHeader''
      then Inr (Some TParent)
      else case nextTarget (mchildren parent) (commentIndex + 1) of
             Some i \<Rightarrow> Inr (Some (TChild i))
           | None \<Rightarrow>
              (case prevTarget (mchildren parent) commentIndex of
                 Inl e \<Rightarrow> Inl e
               | Inr (Some i) \<Rightarrow> Inr (Some (TChild i))
               | Inr None \<Rightarrow>
                  (if mtype parent \<noteq> ''root'' then Inr (Some TParent) else Inr None)))"








section \<open>Nesting consolidation (ASTBuilder.postProcessNestedAdfFenceBlocks)\<close>

definition isAdfFenceBlockType :: "string \<Rightarrow> bool" where
  "isAdfFenceBlockType nodeType =
     (nodeType \<in> set [''panel'', ''expand'', ''nestedExpand'', ''mediaSingle'', ''mediaGroup''])"

text \<open>The test of the inner \<^verbatim>\<open>while\<close> loop: the next node is collected.\<close>

definition absorbable :: "adf \<Rightarrow> bool" where
  "absorbable nextNode = (isAdfFenceBlockType (atype nextNode) \<or> atype nextNode = ''paragraph'')"

text \<open>\<^verbatim>\<open>{ ...node, content: [...(node.content || []), ...nestedNodes] }\<close>\<close>

definition enhancedNode :: "adf \<Rightarrow> adf list \<Rightarrow> adf" where
  "enhancedNode node nestedNodes =
     Adf (atype node) (aattrs node)
       (Some ((case acontent node of Some c \<Rightarrow> c | None \<Rightarrow> []) @ nestedNodes))
       (atext node) (amarks node)"

text \<open>
  The loop over \<^verbatim>\<open>i\<close> only reads \<^verbatim>\<open>content[i]\<close> and the nodes after it, so its
  state is the list from index \<^verbatim>\<open>i\<close> on: \<open>node # rest\<close>. \<^verbatim>\<open>i < content.length - 1\<close> is
  \<open>rest \<noteq> []\<close>, \<^verbatim>\<open>content[j]\<close> with \<^verbatim>\<open>j = i + 1\<close> is \<open>hd rest\<close>, the look-ahead of
  three nodes is \<open>take 3 rest\<close>, the inner loop collects \<open>takeWhile absorbable rest\<close>, and
  \<^verbatim>\<open>i = j - 1\<close> continues after the collected nodes.
\<close>

function postProcessNestedAdfFenceBlocks :: "adf list \<Rightarrow> adf list" where
  "postProcessNestedAdfFenceBlocks [] = []"
| "postProcessNestedAdfFenceBlocks (node # rest) =
     (if (atype node = ''expand'' \<or> atype node = ''panel'') \<and> rest \<noteq> [] then
        (if atype (hd rest) = atype node then node # postProcessNestedAdfFenceBlocks rest
         else if atype node = ''panel''
                 \<and> list_all (\<lambda>n. atype n = ''panel'') (take 3 rest) \<and> rest \<noteq> []
         then node # postProcessNestedAdfFenceBlocks rest
         else (let nestedNodes = takeWhile absorbable rest in
               if nestedNodes \<noteq> []
               then enhancedNode node nestedNodes
                      # postProcessNestedAdfFenceBlocks (dropWhile absorbable rest)
               else node # postProcessNestedAdfFenceBlocks rest))
      else node # postProcessNestedAdfFenceBlocks rest)"
  by pat_completeness auto
termination
  by (relation "measure length") (auto simp: length_dropWhile_le less_Suc_eq_le)

declare postProcessNestedAdfFenceBlocks.simps [simp del]

text \<open>
  The node at which the loop stands collects the nodes after it: it is a panel or an expand,
  it is not the last node, the next node is of another type, the look-ahead of three nodes
  does not find panels only, and the inner loop collects at least one node.
\<close>

definition collects :: "adf \<Rightarrow> adf list \<Rightarrow> bool" where
  "collects node rest =
     ((atype node = ''expand'' \<or> atype node = ''panel'') \<and> rest \<noteq> []
      \<and> atype (hd rest) \<noteq> atype node
      \<and> \<not> (atype node = ''panel''
             \<and> list_all (\<lambda>n. atype n = ''panel'') (take 3 rest) \<and> rest \<noteq> [])
      \<and> takeWhile absorbable rest \<noteq> [])"

text \<open>
  The states of the loop over \<^verbatim>\<open>i\<close>: the list from index \<^verbatim>\<open>i\<close> on, for every \<^verbatim>\<open>i\<close> at
  which the body of the loop runs. After a node that collects, \<^verbatim>\<open>i = j - 1\<close> skips the
  collected nodes; the body does not run at them.
\<close>

function visited :: "adf list \<Rightarrow> adf list list" where
  "visited [] = []"
| "visited (node # rest) =
     (node # rest) # visited (if collects node rest then dropWhile absorbable rest else rest)"
  by pat_completeness auto
termination
  by (relation "measure length") (auto simp: length_dropWhile_le less_Suc_eq_le)

declare visited.simps [simp del]

text \<open>Sample nodes: a panel, a paragraph and an expand.\<close>

definition panelOf :: "string \<Rightarrow> adf" where
  "panelOf s = Adf ''panel'' (Some [(''panelType'', JStr ''info'')])
     (Some [Adf ''paragraph'' None (Some [Adf ''text'' None None (Some s) None]) None None])
     None None"

definition paragraphOf :: "string \<Rightarrow> adf" where
  "paragraphOf s = Adf ''paragraph'' None (Some [Adf ''text'' None None (Some s) None]) None None"

definition expandOf :: "string \<Rightarrow> adf" where
  "expandOf s = Adf ''expand'' (Some [(''title'', JStr s)]) (Some []) None None"

section \<open>Global replacement\<close>

declare rsearch.simps [simp del]

lemma rsearch_bounds:
  "rsearch r pre rest = Some m \<Longrightarrow>
     length pre \<le> m_index m \<and> (m_index m - length pre) + length (m_whole m) \<le> length rest"
proof (induction rest arbitrary: pre)
  case Nil
  then show ?case
    by (subst (asm) rsearch.simps) (auto split: list.splits)
next
  case (Cons c rest)
  show ?case
  proof (cases "rmatch r (pre, c # rest, [])")
    case Nil
    then have "rsearch r (c # pre) rest = Some m"
      using Cons.prems by (subst (asm) rsearch.simps) simp
    from Cons.IH[OF this] show ?thesis by auto
  next
    case (Cons st sts)
    then show ?thesis
      using Cons.prems by (subst (asm) rsearch.simps) (auto split: prod.splits)
  qed
qed

text \<open>
  \<^verbatim>\<open>String.prototype.replace\<close> with a pattern that has the \<^verbatim>\<open>g\<close> flag: the matches are
  found from left to right, each search starting where the match before it ended (one
  character further after an empty match), and each is replaced by what the function
  returns for it. \<open>pre\<close> is the text already passed, reversed.
\<close>

function replace_loop :: "rx \<Rightarrow> (rxmatch \<Rightarrow> string) \<Rightarrow> string \<Rightarrow> string \<Rightarrow> string" where
  "replace_loop r f pre rest =
     (case rsearch r pre rest of
        None \<Rightarrow> rest
      | Some m \<Rightarrow>
          (let k = m_index m - length pre; n = length (m_whole m)
           in take k rest @ f m @
              (if n = 0
               then (case drop k rest of
                       [] \<Rightarrow> []
                     | c # cs \<Rightarrow> c # replace_loop r f (c # rev (take k rest) @ pre) cs)
               else replace_loop r f (rev (take (k + n) rest) @ pre) (drop (k + n) rest))))"
  by pat_completeness auto
termination
proof (relation "measure (\<lambda>(r, f, pre, rest). length rest)", goal_cases)
  case 1
  then show ?case by simp
next
  case (2 r f pre rest m k n c cs)
  then have "length (drop k rest) = Suc (length cs)" by simp
  then show ?case by simp
next
  case (3 r f pre rest m k n)
  have "0 < length (m_whole m)" using 3 by simp
  with rsearch_bounds[OF 3(1)] 3(2,3) have "k + n \<le> length rest" "0 < k + n"
    by linarith+
  then have "length (drop (k + n) rest) < length rest"
    by (simp only: length_drop)
  then show ?case by simp
qed

declare replace_loop.simps [simp del]

definition replaceAll :: "rx \<Rightarrow> (rxmatch \<Rightarrow> string) \<Rightarrow> string \<Rightarrow> string" where
  "replaceAll r f s = replace_loop r f [] s"

section \<open>The conversion engine (MarkdownToAdfEngine.ts)\<close>

definition newline :: char where
  "newline = CHR 0x0A"

text \<open>\<^verbatim>\<open>/-->(\s*<!--)/g\<close>\<close>

definition rx_consecutive :: rx where
  "rx_consecutive = Seq (rx_lit ''-->'') (Grp 1 (Seq (Star (Cls [CSpace])) (rx_lit ''<!--'')))"

text \<open>\<^verbatim>\<open>markdown.replace(/-->(\s*<!--)/g, '-->\n<!-- ')\<close>\<close>

definition preprocessConsecutiveHtmlComments :: "string \<Rightarrow> string" where
  "preprocessConsecutiveHtmlComments markdown =
     replaceAll rx_consecutive (\<lambda>m. ''-->'' @ [newline] @ ''<!-- '') markdown"

text \<open>\<^verbatim>\<open>(panel|expand|mediaSingle|mediaGroup|nestedExpand)\<close>, in the order given.\<close>

fun rx_alts :: "string list \<Rightarrow> rx" where
  "rx_alts [] = NCls []"
| "rx_alts [s] = rx_lit s"
| "rx_alts (s # ss) = Alt (rx_lit s) (rx_alts ss)"

text \<open>\<^verbatim>\<open>/^~~~(panel|expand|mediaSingle|mediaGroup|nestedExpand)([^\n]*)/gm\<close>\<close>

definition nestedAdfPattern :: rx where
  "nestedAdfPattern = rx_seqs [BolM, rx_lit ''~~~'',
     Grp 1 (rx_alts [''panel'', ''expand'', ''mediaSingle'', ''mediaGroup'', ''nestedExpand'']),
     Grp 2 (Star (NCls [CChr newline]))]"

text \<open>\<^verbatim>\<open>/^~~~$/gm\<close>\<close>

definition closingTildes :: rx where
  "closingTildes = rx_seqs [BolM, rx_lit ''~~~'', EolM]"

definition processNestedAdfContent :: "string \<Rightarrow> string" where
  "processNestedAdfContent content =
     replaceAll closingTildes (\<lambda>m. ''```'')
       (replaceAll nestedAdfPattern (\<lambda>m. ''```'' @ grp_str m 1 @ grp_str m 2) content)"

text \<open>
  \<^verbatim>\<open>/^~~~(expand|panel|mediaSingle|mediaGroup|nestedExpand)([^\n]*)\n([\s\S]*?)\n~~~$/gm\<close>
\<close>

definition adfBlockPattern :: rx where
  "adfBlockPattern = rx_seqs [BolM, rx_lit ''~~~'',
     Grp 1 (rx_alts [''expand'', ''panel'', ''mediaSingle'', ''mediaGroup'', ''nestedExpand'']),
     Grp 2 (Star (NCls [CChr newline])), rx_lit [newline],
     Grp 3 (LStar (NCls [])), rx_lit [newline], rx_lit ''~~~'', EolM]"

definition preprocessNestedAdfBlocks :: "string \<Rightarrow> string" where
  "preprocessNestedAdfBlocks markdown =
     replaceAll adfBlockPattern
       (\<lambda>m. ''~~~'' @ grp_str m 1 @ grp_str m 2 @ [newline]
              @ processNestedAdfContent (grp_str m 3) @ [newline] @ ''~~~'')
       markdown"

record options =
  strict :: bool
  preserveUnknownNodes :: bool

text \<open>\<^verbatim>\<open>ADFDocument\<close>\<close>

record adfdoc =
  doc_version :: nat
  doc_type :: string
  doc_content :: "adf list"

definition emptyDoc :: adfdoc where
  "emptyDoc = \<lparr>doc_version = 1, doc_type = ''doc'', doc_content = []\<rparr>"

text \<open>What a caller can pass for \<^verbatim>\<open>markdown\<close>: a string, or a value that is not one.\<close>

datatype js_value = JString string | NonString

definition errorMessage :: "error \<Rightarrow> string" where
  "errorMessage e = (case e of Error m \<Rightarrow> m | TypeError \<Rightarrow> ''TypeError'')"

text \<open>
  \<^verbatim>\<open>convert\<close>. The markup parser (\<^verbatim>\<open>processor.parse\<close> and \<^verbatim>\<open>processor.runSync\<close>) is
  the external collaborator \<open>parse\<close>; \<open>toAdf\<close> stands for \<^verbatim>\<open>convertMdastToAdfSync\<close>, the
  stages after parsing, which are modelled further down: \<^verbatim>\<open>convert\<close> only looks at whether
  they raise. Either can raise, which is the value \<open>Inl\<close>.
\<close>

definition convert ::
  "options \<Rightarrow> (string \<Rightarrow> error + mdast) \<Rightarrow> (mdast \<Rightarrow> error + adfdoc) \<Rightarrow> js_value
     \<Rightarrow> error + adfdoc" where
  "convert opts parse toAdf markdown =
     (case markdown of
        NonString \<Rightarrow>
          (if strict opts then Inl (Error ''Invalid markdown input: must be a non-empty string'')
           else Inr emptyDoc)
      | JString md \<Rightarrow>
          (if md = [] then
             (if strict opts
              then Inl (Error ''Invalid markdown input: must be a non-empty string'')
              else Inr emptyDoc)
           else if length (trim md) = 0 then Inr emptyDoc
           else
             (case (case parse (preprocessNestedAdfBlocks (preprocessConsecutiveHtmlComments md)) of
                      Inl e \<Rightarrow> Inl e
                    | Inr processedTree \<Rightarrow> toAdf processedTree) of
                Inr doc \<Rightarrow> Inr doc
              | Inl e \<Rightarrow>
                  (if strict opts
                   then Inl (Error (''Failed to convert markdown to ADF: '' @ errorMessage e))
                   else Inr \<lparr>doc_version = 1, doc_type = ''doc'',
                          doc_content = [Adf ''paragraph'' None
                            (Some [Adf ''text'' None None (Some md) None]) None None]\<rparr>))))"

text \<open>
  The text starts with an occurrence of \<^verbatim>\<open>-->\<close>, optional white space and \<^verbatim>\<open><!--\<close>.
\<close>

definition startsOccurrence :: "string \<Rightarrow> bool" where
  "startsOccurrence s =
     (startsWith s ''-->'' \<and> startsWith (dropWhile is_space (drop 3 s)) ''<!--'')"

text \<open>
  Two fenced code blocks: the code of the first is \<^verbatim>\<open>--><!--\<close>, the code of the second
  is \<^verbatim>\<open>--> <!--\<close>.
\<close>

definition fencedTight :: string where
  "fencedTight = ''```'' @ [newline] @ ''--><!--'' @ [newline] @ ''```''"

definition fencedSpaced :: string where
  "fencedSpaced = ''```'' @ [newline] @ ''--> <!--'' @ [newline] @ ''```''"

text \<open>Sample collaborators: a parser and a tree builder that raise.\<close>

definition failingParse :: "string \<Rightarrow> error + mdast" where
  "failingParse s = Inl (Error ''parse'')"

definition failingBuild :: "mdast \<Rightarrow> error + adfdoc" where
  "failingBuild t = Inl (Error ''build'')"

text \<open>
  Sample collaborators that succeed: a parser that puts the whole text into one code node,
  and a builder that makes a code block of every child of the root.
\<close>

definition sampleParse :: "string \<Rightarrow> error + mdast" where
  "sampleParse s = Inr (Mdast ''root'' None [Mdast ''code'' (Some s) [] [] []] [] [])"

definition sampleBuild :: "mdast \<Rightarrow> error + adfdoc" where
  "sampleBuild t = Inr \<lparr>doc_version = 1, doc_type = ''doc'',
     doc_content = map (\<lambda>c. Adf ''codeBlock'' None
                          (Some [Adf ''text'' None None (mvalue c) None]) None None)
                     (mchildren t)\<rparr>"

section \<open>Patterns that consume a character\<close>

text \<open>
  A pattern that cannot match the empty string, by its shape. The loops of the scanner end
  because every pattern they use is of this kind.
\<close>

fun consuming :: "rx \<Rightarrow> bool" where
  "consuming (Cls its) = True"
| "consuming (NCls its) = True"
| "consuming Dot = True"
| "consuming (Seq a b) = (consuming a \<or> consuming b)"
| "consuming (Alt a b) = (consuming a \<and> consuming b)"
| "consuming (Grp n a) = consuming a"
| "consuming r = False"

lemma step_char_lt:
  "st' \<in> set (step_char p st) \<Longrightarrow> length (fst (snd st')) < length (fst (snd st))"
  by (cases "(p, st)" rule: step_char.cases) (auto split: if_splits)

lemma iter_le:
  assumes f: "\<And>st st'. st' \<in> set (f st) \<Longrightarrow> length (fst (snd st')) \<le> length (fst (snd st))"
  shows "st' \<in> set (iter n g f st) \<Longrightarrow> length (fst (snd st')) \<le> length (fst (snd st))"
proof (induction n arbitrary: st)
  case 0
  then show ?case by simp
next
  case (Suc n)
  show ?case
  proof (cases "st' = st")
    case True
    then show ?thesis by simp
  next
    case False
    with Suc.prems obtain s1 where s1: "s1 \<in> set (f st)"
      "length (fst (snd s1)) < length (fst (snd st))" "st' \<in> set (iter n g f s1)"
      by (auto simp: Let_def split: if_splits)
    from Suc.IH[OF s1(3)] s1(2) show ?thesis by simp
  qed
qed

lemma rmatch_le:
  "st' \<in> set (rmatch r st) \<Longrightarrow> length (fst (snd st')) \<le> length (fst (snd st))"
proof (induction r arbitrary: st st')
  case (Seq a b)
  then obtain s1 where "s1 \<in> set (rmatch a st)" "st' \<in> set (rmatch b s1)" by auto
  with Seq.IH show ?case by (meson le_trans)
next
  case (Star a)
  then show ?case using iter_le[of "rmatch a" st' _ True st] by simp
next
  case (LStar a)
  then show ?case using iter_le[of "rmatch a" st' _ False st] by simp
qed (auto dest: step_char_lt split: if_splits list.splits)

lemma rmatch_lt:
  "consuming r \<Longrightarrow> st' \<in> set (rmatch r st) \<Longrightarrow> length (fst (snd st')) < length (fst (snd st))"
proof (induction r arbitrary: st st')
  case (Seq a b)
  then obtain s1 where s1: "s1 \<in> set (rmatch a st)" "st' \<in> set (rmatch b s1)" by auto
  from Seq.prems(1) have "consuming a \<or> consuming b" by simp
  then show ?case
  proof
    assume "consuming a"
    from Seq.IH(1)[OF this s1(1)] rmatch_le[OF s1(2)] show ?thesis by simp
  next
    assume "consuming b"
    from Seq.IH(2)[OF this s1(2)] rmatch_le[OF s1(1)] show ?thesis by simp
  qed
qed (auto dest: step_char_lt)

lemma rsearch_consuming:
  "consuming r \<Longrightarrow> rsearch r pre rest = Some m \<Longrightarrow> m_whole m \<noteq> []"
proof (induction rest arbitrary: pre)
  case Nil
  have "rmatch r (pre, [], []) = []"
  proof (cases "rmatch r (pre, [], [])")
    case (Cons st sts)
    then have "st \<in> set (rmatch r (pre, [], []))" by simp
    from rmatch_lt[OF Nil(1) this] show ?thesis by simp
  qed simp
  then have "rsearch r pre [] = None"
    by (subst rsearch.simps) simp
  with Nil show ?case by simp
next
  case (Cons c rest)
  show ?case
  proof (cases "rmatch r (pre, c # rest, [])")
    case Nil
    then have "rsearch r (c # pre) rest = Some m"
      using Cons.prems by (subst (asm) rsearch.simps) simp
    from Cons.IH[OF Cons.prems(1) this] show ?thesis .
  next
    case (Cons st sts)
    obtain p' r' cs where st: "st = (p', r', cs)" by (cases st)
    have "st \<in> set (rmatch r (pre, c # rest, []))" using Cons by simp
    from rmatch_lt[OF Cons.prems(1) this] st have "length r' < Suc (length rest)" by simp
    then show ?thesis
      using Cons.prems(2) Cons st by (subst (asm) rsearch.simps) auto
  qed
qed

lemma rx_exec_split:
  assumes "consuming r" and "rx_exec r content = Some m"
  shows "length (take (m_index m) content) < length content
       \<and> length (drop (m_index m + length (m_whole m)) content) < length content"
proof -
  have s: "rsearch r [] content = Some m" using assms(2) by (simp add: rx_exec_def)
  from rsearch_consuming[OF assms(1) s] have ne: "0 < length (m_whole m)" by simp
  from rsearch_bounds[OF s] have le: "m_index m + length (m_whole m) \<le> length content" by simp
  from ne le have "m_index m < length content" by linarith
  moreover from ne le have "length content - (m_index m + length (m_whole m)) < length content"
    by linarith
  ultimately show ?thesis by simp
qed

text \<open>All matches of a pattern with the \<^verbatim>\<open>g\<close> flag (\<^verbatim>\<open>matchAll\<close>, or a loop of \<^verbatim>\<open>exec\<close>).\<close>

function matchAll_loop :: "rx \<Rightarrow> string \<Rightarrow> string \<Rightarrow> rxmatch list" where
  "matchAll_loop r pre rest =
     (case rsearch r pre rest of
        None \<Rightarrow> []
      | Some m \<Rightarrow>
          (let k = m_index m - length pre; n = length (m_whole m)
           in m #
              (if n = 0
               then (case drop k rest of
                       [] \<Rightarrow> []
                     | c # cs \<Rightarrow> matchAll_loop r (c # rev (take k rest) @ pre) cs)
               else matchAll_loop r (rev (take (k + n) rest) @ pre) (drop (k + n) rest))))"
  by pat_completeness auto
termination
proof (relation "measure (\<lambda>(r, pre, rest). length rest)", goal_cases)
  case 1
  then show ?case by simp
next
  case (2 r pre rest m k n c cs)
  then have "length (drop k rest) = Suc (length cs)" by simp
  then show ?case by simp
next
  case (3 r pre rest m k n)
  have "0 < length (m_whole m)" using 3 by simp
  with rsearch_bounds[OF 3(1)] 3(2,3) have "k + n \<le> length rest" "0 < k + n"
    by linarith+
  then have "length (drop (k + n) rest) < length rest"
    by (simp only: length_drop)
  then show ?case by simp
qed

declare matchAll_loop.simps [simp del]

definition matchAll :: "rx \<Rightarrow> string \<Rightarrow> rxmatch list" where
  "matchAll r s = matchAll_loop r [] s"

section \<open>Dates and decimal numerals\<close>

definition digit_char :: "int \<Rightarrow> char" where
  "digit_char d = ''0123456789'' ! nat d"

text \<open>The decimal digits of an integer that is not negative.\<close>

function show_digits :: "int \<Rightarrow> string" where
  "show_digits n = (if n < 10 then [digit_char n]
                    else show_digits (n div 10) @ [digit_char (n mod 10)])"
  by pat_completeness auto
termination
  by (relation "measure nat") auto

declare show_digits.simps [simp del]

definition show_int :: "int \<Rightarrow> string" where
  "show_int i = (if i < 0 then ''-'' @ show_digits (- i) else show_digits i)"

definition parse_int :: "string \<Rightarrow> int" where
  "parse_int s = foldl (\<lambda>acc c. acc * 10 + (of_char c - 48)) 0 s"

text \<open>
  Days from 1970-01-01 to the given day of the proleptic Gregorian calendar.
\<close>

definition daysFromCivil :: "int \<Rightarrow> int \<Rightarrow> int \<Rightarrow> int" where
  "daysFromCivil y m d =
     (let y' = (if m \<le> 2 then y - 1 else y);
          era = y' div 400;
          yoe = y' - era * 400;
          doy = (153 * (if m > 2 then m - 3 else m + 9) + 2) div 5 + d - 1;
          doe = yoe * 365 + yoe div 4 - yoe div 100 + doy
      in era * 146097 + doe - 719468)"

text \<open>
  \<^verbatim>\<open>new Date(dateString + 'T00:00:00.000Z').getTime().toString()\<close> for a
  \<open>dateString\<close> of the shape \<^verbatim>\<open>YYYY-MM-DD\<close> (the patterns give no other): midnight UTC
  of that day in milliseconds since the epoch. A month outside 1 to 12 or a day outside 1 to
  31 is an invalid date, whose time is \<^verbatim>\<open>NaN\<close>; a day beyond the end of its month
  counts on into the next month, as it does in V8.
\<close>

definition dateTimestamp :: "string \<Rightarrow> string" where
  "dateTimestamp dateString =
     (let y = parse_int (take 4 dateString);
          m = parse_int (take 2 (drop 5 dateString));
          d = parse_int (take 2 (drop 8 dateString))
      in if 1 \<le> m \<and> m \<le> 12 \<and> 1 \<le> d \<and> d \<le> 31
         then show_int ((daysFromCivil y m 1 + (d - 1)) * 86400000)
         else ''NaN'')"

section \<open>Social tokens (ASTBuilder.findNextSocialElement)\<close>

text \<open>
  The emoji table (\<^verbatim>\<open>getEmojiData\<close> with the fallback \<^verbatim>\<open>createFallbackEmojiData\<close>) is
  a collaborator: for a short name it gives the identifier, when there is one, and the text.
\<close>

type_synonym emojiTable = "string \<Rightarrow> string option \<times> string"

text \<open>\<^verbatim>\<open>\d{4}-\d{2}-\d{2}\<close>\<close>

definition rx_date :: rx where
  "rx_date = rx_seqs [rx_times 4 (Cls [CDigit]), rx_lit ''-'', rx_times 2 (Cls [CDigit]),
     rx_lit ''-'', rx_times 2 (Cls [CDigit])]"

definition node :: "string \<Rightarrow> attrs \<Rightarrow> adf" where
  "node t a = Adf t (Some a) None None None"

text \<open>\<^verbatim>\<open>/\{user:([^}]+)\}/\<close>\<close>

definition rx_mention :: rx where
  "rx_mention = rx_seqs [rx_lit ''{user:'', Grp 1 (rx_plus (NCls [CChr CHR ''}''])), rx_lit ''}'']"

text \<open>\<^verbatim>\<open>/:([a-zA-Z0-9_+-]+):/\<close>\<close>

definition rx_emoji :: rx where
  "rx_emoji = rx_seqs [rx_lit '':'',
     Grp 1 (rx_plus (Cls [CRng CHR ''a'' CHR ''z'', CRng CHR ''A'' CHR ''Z'',
       CRng CHR ''0'' CHR ''9'', CChr CHR ''_'', CChr CHR ''+'', CChr CHR ''-''])),
     rx_lit '':'']"

text \<open>\<^verbatim>\<open>/\{date:(\d{4}-\d{2}-\d{2})\}/\<close>\<close>

definition rx_dateBraces :: rx where
  "rx_dateBraces = rx_seqs [rx_lit ''{date:'', Grp 1 rx_date, rx_lit ''}'']"

text \<open>\<^verbatim>\<open>/(^|[^\w-])(\d{4}-\d{2}-\d{2})(?![\w-])/\<close>\<close>

definition rx_bareDate :: rx where
  "rx_bareDate = rx_seqs [Grp 1 (Alt Bol (NCls [CWord, CChr CHR ''-''])), Grp 2 rx_date,
     NLook (Cls [CWord, CChr CHR ''-''])]"

text \<open>\<^verbatim>\<open>/\{status:([^|}]+)(?:\|color:([^}]*))?\}/\<close>\<close>

definition rx_status :: rx where
  "rx_status = rx_seqs [rx_lit ''{status:'',
     Grp 1 (rx_plus (NCls [CChr CHR ''|'', CChr CHR ''}''])),
     rx_opt (Seq (rx_lit ''|color:'') (Grp 2 (Star (NCls [CChr CHR ''}''])))), rx_lit ''}'']"

text \<open>\<^verbatim>\<open>/\[([^\]]*)\]\(card:([^)]+)\)/\<close>\<close>

definition rx_card :: rx where
  "rx_card = rx_seqs [rx_lit ''['', Grp 1 (Star (NCls [CChr CHR '']''])), rx_lit ''](card:'',
     Grp 2 (rx_plus (NCls [CChr CHR '')''])), rx_lit '')'']"

text \<open>\<^verbatim>\<open>/!\[([^\]]*)\]\(media:([^)]+)\)/\<close>\<close>

definition rx_media :: rx where
  "rx_media = rx_seqs [rx_lit ''!['', Grp 1 (Star (NCls [CChr CHR '']''])), rx_lit ''](media:'',
     Grp 2 (rx_plus (NCls [CChr CHR '')''])), rx_lit '')'']"

text \<open>
  The patterns with their \<^verbatim>\<open>process\<close> functions, in the order of the source: mention,
  emoji, date in braces, bare date, status, inline card, media reference. An emoji without
  an identifier has no \<^verbatim>\<open>id\<close> attribute.
\<close>

definition socialPatterns :: "emojiTable \<Rightarrow> (rx \<times> (rxmatch \<Rightarrow> adf)) list" where
  "socialPatterns emoji =
   [ (rx_mention,
      \<lambda>m. node ''mention'' [(''id'', JStr (grp_str m 1)),
             (''text'', JStr (''@'' @ grp_str m 1)), (''userType'', JStr ''DEFAULT'')]),
     (rx_emoji,
      \<lambda>m. (case emoji (grp_str m 1) of
              (eid, etext) \<Rightarrow>
                node ''emoji'' ([(''shortName'', JStr ('':'' @ grp_str m 1 @ '':''))]
                  @ (case eid of Some i \<Rightarrow> [(''id'', JStr i)] | None \<Rightarrow> [])
                  @ [(''text'', JStr etext)]))),
     (rx_dateBraces,
      \<lambda>m. node ''date'' [(''timestamp'', JStr (dateTimestamp (grp_str m 1)))]),
     (rx_bareDate,
      \<lambda>m. node ''date'' [(''timestamp'', JStr (dateTimestamp (grp_str m 2)))]),
     (rx_status,
      \<lambda>m. (let color = (case grp m 2 of None \<Rightarrow> ''neutral''
                          | Some c \<Rightarrow> if c = [] then ''neutral'' else c);
                finalColor = (if color \<noteq> [] \<and> color \<in> set [''neutral'', ''purple'',
                                  ''blue'', ''red'', ''yellow'', ''green'']
                              then color else ''neutral'')
            in node ''status'' [(''text'', JStr (grp_str m 1)), (''color'', JStr finalColor)])),
     (rx_card,
      \<lambda>m. node ''inlineCard'' [(''url'', JStr (grp_str m 2))]),
     (rx_media,
      \<lambda>m. node ''mediaReference'' [(''id'', JStr (grp_str m 2)), (''alt'', JStr (grp_str m 1)),
             (''mediaType'', JStr ''file''), (''collection'', JStr [])]) ]"

text \<open>
  The loop over the patterns, common to \<^verbatim>\<open>findNextSocialElement\<close> and
  \<^verbatim>\<open>parseInlineMarksRecursively\<close>: a pattern's match replaces the one kept so far
  when there is none, or when it starts strictly before it.
\<close>

fun earliestMatch ::
  "(rx \<times> 'a) list \<Rightarrow> string \<Rightarrow> (rxmatch \<times> 'a) option \<Rightarrow> (rxmatch \<times> 'a) option" where
  "earliestMatch [] content earliest = earliest"
| "earliestMatch ((regex, process) # patterns) content earliest =
     earliestMatch patterns content
       (case rx_exec regex content of
          Some m \<Rightarrow>
            (case earliest of
               None \<Rightarrow> Some (m, process)
             | Some (e, p) \<Rightarrow> if m_index m < m_index e then Some (m, process) else earliest)
        | None \<Rightarrow> earliest)"

record socialMatch =
  sm_index :: nat
  beforeText :: string
  sm_node :: adf
  afterText :: string

definition findNextSocialElementIn ::
  "(rx \<times> (rxmatch \<Rightarrow> adf)) list \<Rightarrow> string \<Rightarrow> socialMatch option" where
  "findNextSocialElementIn patterns content =
     (case earliestMatch patterns content None of
        None \<Rightarrow> None
      | Some (m, process) \<Rightarrow>
          Some \<lparr>sm_index = m_index m,
                beforeText = take (m_index m) content,
                sm_node = process m,
                afterText = drop (m_index m + length (m_whole m)) content\<rparr>)"

definition findNextSocialElement :: "emojiTable \<Rightarrow> string \<Rightarrow> socialMatch option" where
  "findNextSocialElement emoji content = findNextSocialElementIn (socialPatterns emoji) content"

section \<open>Inline marks in plain text (ASTBuilder.parseInlineMarksRecursively)\<close>

definition textNode :: "string \<Rightarrow> mark list option \<Rightarrow> adf" where
  "textNode t ms = Adf ''text'' None None (Some t) ms"

text \<open>\<^verbatim>\<open>...(marks.length > 0 && { marks })\<close>\<close>

definition marksIfAny :: "mark list \<Rightarrow> mark list option" where
  "marksIfAny ms = (if ms = [] then None else Some ms)"

text \<open>\<^verbatim>\<open>/<!--\s*adf:text\s+([^>]+)-->(.*?)<!--\s*\/adf:text\s*-->/\<close>\<close>

definition metadataRegex :: rx where
  "metadataRegex = rx_seqs [rx_lit ''<!--'', rx_ws, rx_lit ''adf:text'', rx_ws1,
     Grp 1 (rx_plus (NCls [CChr CHR ''>''])), rx_lit ''-->'', Grp 2 (LStar Dot),
     rx_lit ''<!--'', rx_ws, rx_lit ''/adf:text'', rx_ws, rx_lit ''-->'']"

text \<open>\<^verbatim>\<open>/(\w+)=(?:([^"\s]+)|"([^"]*)")/g\<close>\<close>

definition spanAttrRegex :: rx where
  "spanAttrRegex = rx_seqs [Grp 1 (rx_plus (Cls [CWord])), rx_lit ''='',
     Alt (Grp 2 (rx_plus (NCls [CChr CHR 0x22, CSpace])))
         (rx_seqs [rx_lit [CHR 0x22], Grp 3 (Star (NCls [CChr CHR 0x22])), rx_lit [CHR 0x22]])]"

definition colorMark :: "string \<Rightarrow> string \<Rightarrow> mark" where
  "colorMark t v = Mark t (Some [(''color'', JStr v)])"

definition subsupMark :: "string \<Rightarrow> mark" where
  "subsupMark v = Mark ''subsup'' (Some [(''type'', JStr v)])"

text \<open>The \<^verbatim>\<open>switch (attrName)\<close> of \<^verbatim>\<open>findNextMetadataComment\<close>, for one attribute.\<close>

definition spanMark :: "rxmatch \<Rightarrow> mark list" where
  "spanMark attrMatch =
     (let attrName = grp_str attrMatch 1;
          v = (case grp attrMatch 3 of Some q \<Rightarrow> q | None \<Rightarrow> grp_str attrMatch 2)
      in if attrName = ''underline'' then (if v = ''true'' then [Mark ''underline'' None] else [])
         else if attrName = ''color'' then [colorMark ''textColor'' v]
         else if attrName = ''backgroundColor'' then [colorMark ''backgroundColor'' v]
         else if attrName = ''subscript'' then (if v = ''true'' then [subsupMark ''sub''] else [])
         else if attrName = ''superscript'' then (if v = ''true'' then [subsupMark ''sup''] else [])
         else [])"

text \<open>What a search returns: the text before the match, the node, the text after it.\<close>

type_synonym split = "string \<times> adf \<times> string"

definition findNextMetadataComment :: "string \<Rightarrow> split option" where
  "findNextMetadataComment content =
     (case rx_exec metadataRegex content of
        None \<Rightarrow> None
      | Some m \<Rightarrow>
          (let marks = concat (map spanMark (matchAll spanAttrRegex (trim (grp_str m 1))))
           in Some (take (m_index m) content,
                    textNode (grp_str m 2) (marksIfAny marks),
                    drop (m_index m + length (m_whole m)) content)))"

text \<open>\<^verbatim>\<open>/\[([^\]]+)\]\(([^)]+)\)<!--\s*adf:inlineCard\s*-->/\<close>\<close>

definition rx_linkCardComment :: rx where
  "rx_linkCardComment = rx_seqs [rx_lit ''['', Grp 1 (rx_plus (NCls [CChr CHR '']''])),
     rx_lit ''](''  , Grp 2 (rx_plus (NCls [CChr CHR '')''])), rx_lit '')'',
     rx_lit ''<!--'', rx_ws, rx_lit ''adf:inlineCard'', rx_ws, rx_lit ''-->'']"

text \<open>\<^verbatim>\<open>/\[([^\]]+)\]\(([^)]+)\)/\<close>\<close>

definition rx_link :: rx where
  "rx_link = rx_seqs [rx_lit ''['', Grp 1 (rx_plus (NCls [CChr CHR '']''])),
     rx_lit '']('', Grp 2 (rx_plus (NCls [CChr CHR '')''])), rx_lit '')'']"

text \<open>\<^verbatim>\<open>/\*\*([^*]+)\*\*/\<close>\<close>

definition rx_bold :: rx where
  "rx_bold = rx_seqs [rx_lit ''**'', Grp 1 (rx_plus (NCls [CChr CHR ''*''])), rx_lit ''**'']"

text \<open>\<^verbatim>\<open>/(?<!\*)\*([^*]+)\*(?!\*)/\<close>\<close>

definition rx_italic :: rx where
  "rx_italic = rx_seqs [NBehind [CChr CHR ''*''], rx_lit ''*'',
     Grp 1 (rx_plus (NCls [CChr CHR ''*''])), rx_lit ''*'', NLook (Cls [CChr CHR ''*''])]"

text \<open>The pattern for inline code: a backquote, \<^verbatim>\<open>([^`]+)\<close>, a backquote.\<close>

definition rx_code :: rx where
  "rx_code = rx_seqs [rx_lit [CHR 0x60], Grp 1 (rx_plus (NCls [CChr CHR 0x60])), rx_lit [CHR 0x60]]"

text \<open>\<^verbatim>\<open>/<!--\s*adf:text\s+([^>]+)\s*-->([^<]+)<!--\s*\/adf:text\s*-->/\<close>\<close>

definition rx_advancedText :: rx where
  "rx_advancedText = rx_seqs [rx_lit ''<!--'', rx_ws, rx_lit ''adf:text'', rx_ws1,
     Grp 1 (rx_plus (NCls [CChr CHR ''>''])), rx_ws, rx_lit ''-->'',
     Grp 2 (rx_plus (NCls [CChr CHR ''<''])),
     rx_lit ''<!--'', rx_ws, rx_lit ''/adf:text'', rx_ws, rx_lit ''-->'']"

text \<open>\<^verbatim>\<open>/(\w+)=["']?([^"'\s]+)["']?/g\<close>\<close>

definition advancedAttrRegex :: rx where
  "advancedAttrRegex = rx_seqs [Grp 1 (rx_plus (Cls [CWord])), rx_lit ''='',
     rx_opt (Cls [CChr CHR 0x22, CChr CHR 0x27]),
     Grp 2 (rx_plus (NCls [CChr CHR 0x22, CChr CHR 0x27, CSpace])),
     rx_opt (Cls [CChr CHR 0x22, CChr CHR 0x27])]"

definition advancedMark :: "rxmatch \<Rightarrow> mark list" where
  "advancedMark attrMatch =
     (let key = grp_str attrMatch 1; v = grp_str attrMatch 2
      in if key = ''underline'' then (if v = ''true'' then [Mark ''underline'' None] else [])
         else if key = ''textColor'' then [colorMark ''textColor'' v]
         else if key = ''backgroundColor'' then [colorMark ''backgroundColor'' v]
         else if key = ''subsup'' then [subsupMark v]
         else [])"

text \<open>
  The patterns of \<^verbatim>\<open>parseInlineMarksRecursively\<close> in the order of the source, each with
  the node its \<^verbatim>\<open>process\<close> function makes.
\<close>

definition inlinePatterns :: "(rx \<times> (rxmatch \<Rightarrow> adf)) list" where
  "inlinePatterns =
   [ (rx_linkCardComment, \<lambda>m. node ''inlineCard'' [(''url'', JStr (grp_str m 2))]),
     (rx_card, \<lambda>m. node ''inlineCard'' [(''url'', JStr (grp_str m 2))]),
     (rx_link, \<lambda>m. textNode (grp_str m 1)
                      (Some [Mark ''link'' (Some [(''href'', JStr (grp_str m 2))])])),
     (rx_bold, \<lambda>m. textNode (grp_str m 1) (Some [Mark ''strong'' None])),
     (rx_italic, \<lambda>m. textNode (grp_str m 1) (Some [Mark ''em'' None])),
     (rx_code, \<lambda>m. textNode (grp_str m 1) (Some [Mark ''code'' None])),
     (rx_advancedText,
      \<lambda>m. textNode (trim (grp_str m 2))
             (marksIfAny (concat (map advancedMark (matchAll advancedAttrRegex (grp_str m 1)))))) ]"

definition firstInlineMatch :: "string \<Rightarrow> split option" where
  "firstInlineMatch content =
     (case earliestMatch inlinePatterns content None of
        None \<Rightarrow> None
      | Some (m, process) \<Rightarrow>
          Some (take (m_index m) content, process m,
                drop (m_index m + length (m_whole m)) content))"

lemma earliestMatch_from:
  "earliestMatch ps content best = Some (m, p) \<Longrightarrow>
     best = Some (m, p) \<or> (\<exists>r. (r, p) \<in> set ps \<and> rx_exec r content = Some m)"
proof (induction ps arbitrary: best)
  case Nil
  then show ?case by simp
next
  case (Cons a ps)
  obtain r q where a: "a = (r, q)" by (cases a)
  from Cons.prems a have
    "earliestMatch ps content
       (case rx_exec r content of
          Some m' \<Rightarrow>
            (case best of
               None \<Rightarrow> Some (m', q)
             | Some (e, p') \<Rightarrow> if m_index m' < m_index e then Some (m', q) else best)
        | None \<Rightarrow> best) = Some (m, p)"
    by simp
  from Cons.IH[OF this] show ?case
    using a by (auto split: option.splits if_splits)
qed

lemma inline_consuming: "\<forall>(r, p) \<in> set inlinePatterns. consuming r"
  by (simp add: inlinePatterns_def rx_linkCardComment_def rx_card_def rx_link_def rx_bold_def
      rx_italic_def rx_code_def rx_advancedText_def rx_plus_def)

lemma social_consuming: "\<forall>(r, p) \<in> set (socialPatterns emoji). consuming r"
  by (simp add: socialPatterns_def rx_mention_def rx_emoji_def rx_dateBraces_def rx_bareDate_def
      rx_status_def rx_card_def rx_media_def rx_date_def rx_plus_def)

lemma firstInlineMatch_shorter:
  assumes "firstInlineMatch content = Some (bef, n, aft)"
  shows "length bef < length content \<and> length aft < length content"
proof -
  from assms obtain m p where e: "earliestMatch inlinePatterns content None = Some (m, p)"
    and b: "bef = take (m_index m) content"
    and a: "aft = drop (m_index m + length (m_whole m)) content"
    by (auto simp: firstInlineMatch_def split: option.splits)
  from earliestMatch_from[OF e] obtain r where
    "(r, p) \<in> set inlinePatterns" "rx_exec r content = Some m" by auto
  with inline_consuming rx_exec_split[of r content m] show ?thesis
    unfolding a b by blast
qed

lemma findNextMetadataComment_shorter:
  assumes "findNextMetadataComment content = Some (bef, n, aft)"
  shows "length bef < length content \<and> length aft < length content"
proof -
  from assms obtain m where e: "rx_exec metadataRegex content = Some m"
    and b: "bef = take (m_index m) content"
    and a: "aft = drop (m_index m + length (m_whole m)) content"
    by (auto simp: findNextMetadataComment_def Let_def split: option.splits)
  have "consuming metadataRegex" by (simp add: metadataRegex_def)
  from rx_exec_split[OF this e] show ?thesis unfolding a b .
qed

lemma findNextSocialElement_shorter:
  assumes "findNextSocialElement emoji content = Some sm"
  shows "length (beforeText sm) < length content \<and> length (afterText sm) < length content"
proof -
  from assms obtain m p where
    e: "earliestMatch (socialPatterns emoji) content None = Some (m, p)"
    and b: "beforeText sm = take (m_index m) content"
    and a: "afterText sm = drop (m_index m + length (m_whole m)) content"
    by (auto simp: findNextSocialElement_def findNextSocialElementIn_def split: option.splits)
  from earliestMatch_from[OF e] obtain r where
    "(r, p) \<in> set (socialPatterns emoji)" "rx_exec r content = Some m" by auto
  with social_consuming[of emoji] rx_exec_split[of r content m] show ?thesis
    unfolding a b by blast
qed

function parseInlineMarksRecursively :: "string \<Rightarrow> adf list" where
  "parseInlineMarksRecursively content =
     (if content = [] then []
      else case findNextMetadataComment content of
             Some (bef, n, aft) \<Rightarrow>
               (if bef \<noteq> [] then parseInlineMarksRecursively bef else [])
               @ [n] @ parseInlineMarksRecursively aft
           | None \<Rightarrow>
               (case firstInlineMatch content of
                  None \<Rightarrow> [textNode content None]
                | Some (bef, n, aft) \<Rightarrow>
                    (if bef \<noteq> [] then parseInlineMarksRecursively bef else [])
                    @ [n]
                    @ (if aft \<noteq> [] then parseInlineMarksRecursively aft else [])))"
  by pat_completeness auto
termination
proof (relation "measure length", goal_cases)
  case 1
  then show ?case by simp
next
  case (2 content x2 x y xa ya)
  then have "firstInlineMatch content = Some (x, xa, ya)" by auto
  from firstInlineMatch_shorter[OF this] show ?case by simp
next
  case (3 content x2 x y xa ya)
  then have "firstInlineMatch content = Some (x, xa, ya)" by auto
  from firstInlineMatch_shorter[OF this] show ?case by simp
next
  case (4 content x2 x y xa ya)
  then have "findNextMetadataComment content = Some (x, xa, ya)" by auto
  from findNextMetadataComment_shorter[OF this] show ?case by simp
next
  case (5 content x2 x y xa ya)
  then have "findNextMetadataComment content = Some (x, xa, ya)" by auto
  from findNextMetadataComment_shorter[OF this] show ?case by simp
qed

declare parseInlineMarksRecursively.simps [simp del]

section \<open>The scanner (ASTBuilder.parseInlineContentWithSocialElements)\<close>

text \<open>The \<^verbatim>\<open>while (remaining.length > 0)\<close> loop.\<close>

function socialLoop :: "emojiTable \<Rightarrow> string \<Rightarrow> adf list" where
  "socialLoop emoji remaining =
     (if length remaining > 0 then
        (case findNextSocialElement emoji remaining of
           Some socialMatch \<Rightarrow>
             (if beforeText socialMatch \<noteq> []
              then parseInlineMarksRecursively (beforeText socialMatch) else [])
             @ [sm_node socialMatch]
             @ socialLoop emoji (afterText socialMatch)
         | None \<Rightarrow> parseInlineMarksRecursively remaining)
      else [])"
  by pat_completeness auto
termination
proof (relation "measure (\<lambda>(emoji, remaining). length remaining)", goal_cases)
  case 1
  then show ?case by simp
next
  case (2 emoji remaining sm)
  then show ?case using findNextSocialElement_shorter[of emoji remaining sm] by simp
qed

declare socialLoop.simps [simp del]

definition parseInlineContentWithSocialElements :: "emojiTable \<Rightarrow> string \<Rightarrow> adf list" where
  "parseInlineContentWithSocialElements emoji content =
     (if content = [] then [] else socialLoop emoji content)"

definition processTextNodeForSocialElements :: "emojiTable \<Rightarrow> string \<Rightarrow> adf list" where
  "processTextNodeForSocialElements emoji text =
     (if text = [] then [] else parseInlineContentWithSocialElements emoji text)"

text \<open>A sample emoji table: no short name is known, the fallback gives the name as text.\<close>

definition noEmoji :: emojiTable where
  "noEmoji shortName = (None, shortName)"

section \<open>Inline nodes and marks (ASTBuilder.convertMdastInlineNode, wrapWithMark)\<close>

text \<open>A string property of a generic node; \<open>None\<close> when it is absent or not a string.\<close>

definition prop_str :: "mdast \<Rightarrow> string \<Rightarrow> string option" where
  "prop_str n k = (case map_of (mprops n) k of Some (JStr s) \<Rightarrow> Some s | _ \<Rightarrow> None)"

text \<open>JavaScript truthiness of a value.\<close>

fun js_truthy :: "jval \<Rightarrow> bool" where
  "js_truthy (JStr s) = (s \<noteq> [])"
| "js_truthy (JNum (Fin q)) = (q \<noteq> 0)"
| "js_truthy (JNum (Inf b)) = True"
| "js_truthy (JBool b) = b"
| "js_truthy (JObj kvs) = True"

text \<open>\<^verbatim>\<open>/^(?:adf:)?media:(.+)$/\<close>\<close>

definition rx_mediaUrl :: rx where
  "rx_mediaUrl = rx_seqs [Bol, rx_opt (rx_lit ''adf:''), rx_lit ''media:'', Grp 1 (rx_plus Dot), Eol]"

text \<open>The loop over the metadata of an image in \<^verbatim>\<open>convertMdastImage\<close>.\<close>

fun imageAttrs :: "metadata list \<Rightarrow> attrs \<times> attrs \<Rightarrow> attrs \<times> attrs" where
  "imageAttrs [] acc = acc"
| "imageAttrs (meta # metas) (mediaAttrs, mediaSingleAttrs) =
     imageAttrs metas
       (case md_attrs meta of
          Some a \<Rightarrow>
            (if md_nodeType meta = ''media'' then (obj_merge mediaAttrs a, mediaSingleAttrs)
             else if md_nodeType meta = ''mediaSingle'' then (mediaAttrs, a)
             else (mediaAttrs, mediaSingleAttrs))
        | None \<Rightarrow> (mediaAttrs, mediaSingleAttrs))"

text \<open>\<^verbatim>\<open>convertMdastImage\<close>; \<open>None\<close> is \<^verbatim>\<open>null\<close>.\<close>

definition convertMdastImage :: "mdast \<Rightarrow> adf option" where
  "convertMdastImage n =
     (case prop_str n ''url'' of
        None \<Rightarrow> None
      | Some url \<Rightarrow>
         (if url = [] then None
          else case rx_exec rx_mediaUrl url of
            None \<Rightarrow> None
          | Some adfMediaMatch \<Rightarrow>
             (let mediaId = grp_str adfMediaMatch 1 in
              if mediaId = [] then None
              else
               (case imageAttrs (mmeta n) ([(''id'', JStr mediaId), (''type'', JStr ''file'')], []) of
                  (mediaAttrs0, mediaSingleAttrs) \<Rightarrow>
                   (let mediaAttrs1 = (case prop_str n ''alt'' of
                                         Some alt \<Rightarrow> if alt \<noteq> [] then obj_set mediaAttrs0 ''alt'' (JStr alt)
                                                     else mediaAttrs0
                                       | None \<Rightarrow> mediaAttrs0);
                        mediaAttrs = (case map_of mediaAttrs1 ''collection'' of
                                        Some c \<Rightarrow> if js_truthy c then mediaAttrs1
                                                  else obj_set mediaAttrs1 ''collection'' (JStr [])
                                      | None \<Rightarrow> obj_set mediaAttrs1 ''collection'' (JStr []))
                    in Some (Adf ''mediaSingle''
                               (Some (obj_merge [(''layout'', JStr ''center'')] mediaSingleAttrs))
                               (Some [node ''media'' mediaAttrs]) None None))))))"

definition isAdfProcessingDirective :: "string \<Rightarrow> bool" where
  "isAdfProcessingDirective v =
     list_ex (\<lambda>directive. str_includes v (''adf:'' @ directive)) [''inlineCard'', ''blockCard'']"

text \<open>
  The second half of \<^verbatim>\<open>wrapWithMark\<close>: the mark is pushed onto the marks of every node
  that can carry marks; the marks the node has already are kept.
\<close>

definition markableNodeTypes :: "string list" where
  "markableNodeTypes = [''text'', ''mention'', ''emoji'', ''status'', ''date'', ''inlineCard'']"

definition pushMark :: "mark \<Rightarrow> adf \<Rightarrow> adf" where
  "pushMark mark n =
     (if atype n \<in> set markableNodeTypes
      then Adf (atype n) (aattrs n) (acontent n) (atext n)
             (Some ((case amarks n of Some ms \<Rightarrow> ms | None \<Rightarrow> []) @ [mark]))
      else n)"

text \<open>
  \<^verbatim>\<open>convertMdastInlineNode\<close> gives a node, a list of nodes or \<^verbatim>\<open>null\<close>, and
  \<^verbatim>\<open>convertMdastInlineNodes\<close> flattens all of these into one list: the result is a list
  here, empty for \<^verbatim>\<open>null\<close>. \<^verbatim>\<open>wrapWithMark(children, markType, attrs)\<close> is
  \<open>map (pushMark mark)\<close> of the converted children. A link node has a \<^verbatim>\<open>url\<close>.
\<close>

fun convertMdastInlineNode :: "emojiTable \<Rightarrow> options \<Rightarrow> mdast \<Rightarrow> adf list" where
  "convertMdastInlineNode emoji opts (Mdast t v children props meta) =
     (if t = ''text'' then
        (case (case meta of m # _ \<Rightarrow> md_marks m | [] \<Rightarrow> None) of
           Some marks \<Rightarrow> [textNode (case v of Some s \<Rightarrow> s | None \<Rightarrow> []) (Some marks)]
         | None \<Rightarrow> processTextNodeForSocialElements emoji (case v of Some s \<Rightarrow> s | None \<Rightarrow> []))
      else if t = ''strong'' then
        map (pushMark (Mark ''strong'' None))
          (concat (map (convertMdastInlineNode emoji opts) children))
      else if t = ''emphasis'' then
        map (pushMark (Mark ''em'' None))
          (concat (map (convertMdastInlineNode emoji opts) children))
      else if t = ''inlineCode'' then
        [textNode (case v of Some s \<Rightarrow> s | None \<Rightarrow> []) (Some [Mark ''code'' None])]
      else if t = ''delete'' then
        map (pushMark (Mark ''strike'' None))
          (concat (map (convertMdastInlineNode emoji opts) children))
      else if t = ''link'' then
        (let url = (case prop_str (Mdast t v children props meta) ''url'' of
                      Some u \<Rightarrow> u | None \<Rightarrow> [])
         in if startsWith url ''card:''
            then [node ''inlineCard'' [(''url'', JStr (drop 5 url))]]
            else map (pushMark (Mark ''link'' (Some ([(''href'', JStr url)]
                        @ (case prop_str (Mdast t v children props meta) ''title'' of
                             Some ti \<Rightarrow> if ti \<noteq> [] then [(''title'', JStr ti)] else []
                           | None \<Rightarrow> [])))))
                   (concat (map (convertMdastInlineNode emoji opts) children)))
      else if t = ''break'' then [Adf ''hardBreak'' None None None None]
      else if t = ''image'' then
        (case convertMdastImage (Mdast t v children props meta) of
           Some n \<Rightarrow> [n] | None \<Rightarrow> [])
      else if t = ''html'' then
        (let s = (case v of Some s \<Rightarrow> s | None \<Rightarrow> []) in
         if s \<noteq> [] \<and> isAdfMetadataComment s then []
         else if s \<noteq> [] \<and> isAdfProcessingDirective s then []
         else if preserveUnknownNodes opts
              then [textNode (''[HTML: '' @ (case v of Some s \<Rightarrow> s | None \<Rightarrow> ''undefined'') @ '']'') None]
              else [])
      else
        [textNode (case v of Some s \<Rightarrow> if s \<noteq> [] then s else ''['' @ t @ '']''
                   | None \<Rightarrow> ''['' @ t @ '']'') None])"

definition convertMdastInlineNodes :: "emojiTable \<Rightarrow> options \<Rightarrow> mdast list \<Rightarrow> adf list" where
  "convertMdastInlineNodes emoji opts nodes = concat (map (convertMdastInlineNode emoji opts) nodes)"

definition wrapWithMark ::
  "emojiTable \<Rightarrow> options \<Rightarrow> mdast list \<Rightarrow> string \<Rightarrow> attrs option \<Rightarrow> adf list" where
  "wrapWithMark emoji opts children markType a =
     map (pushMark (Mark markType a)) (convertMdastInlineNodes emoji opts children)"

section \<open>Inline tokens (ASTBuilder.convertInlineTokenToNode, convertFormattingToken)\<close>

text \<open>
  \<^verbatim>\<open>Token\<close>: its type, content, the attributes of its metadata, its children (empty when
  it has none) and its raw text.
\<close>

datatype token = Token (tk_type: string) (tk_content: string) (tk_attrs: attrs)
  (tk_children: "token list") (tk_raw: string)

definition getADFMarkType :: "string \<Rightarrow> string" where
  "getADFMarkType tokenType =
     (if tokenType = ''strong'' then ''strong''
      else if tokenType = ''emphasis'' then ''em''
      else if tokenType = ''strikethrough'' then ''strike''
      else if tokenType = ''inlineCode'' then ''code''
      else if tokenType = ''underline'' then ''underline''
      else ''unknown'')"

text \<open>\<^verbatim>\<open>/(^|[^\w-])\d{4}-\d{2}-\d{2}(?![\w-])/\<close>\<close>

definition rx_bareDateTest :: rx where
  "rx_bareDateTest = rx_seqs [Grp 1 (Alt Bol (NCls [CWord, CChr CHR ''-''])), rx_date,
     NLook (Cls [CWord, CChr CHR ''-''])]"

definition hasSocialElements :: "string \<Rightarrow> bool" where
  "hasSocialElements content =
     (if content = [] then False
      else (str_includes content ''{user:''
            \<or> rx_test rx_emoji content
            \<or> str_includes content ''{date:''
            \<or> rx_test rx_bareDateTest content
            \<or> str_includes content ''{status:''))"

text \<open>The mark is pushed onto the marks of a text node (\<^verbatim>\<open>convertFormattingToken\<close>).\<close>

definition pushTextMark :: "mark \<Rightarrow> adf \<Rightarrow> adf" where
  "pushTextMark mark n =
     (if atype n = ''text''
      then Adf (atype n) (aattrs n) (acontent n) (atext n)
             (Some ((case amarks n of Some ms \<Rightarrow> ms | None \<Rightarrow> []) @ [mark]))
      else n)"

fun convertInlineTokenToNode :: "emojiTable \<Rightarrow> token \<Rightarrow> adf list" where
  "convertInlineTokenToNode emoji (Token t content a children raw) =
     (if t = ''text'' then
        (if hasSocialElements content then parseInlineContentWithSocialElements emoji content
         else [textNode content None])
      else if t \<in> set [''strong'', ''emphasis'', ''strikethrough'', ''inlineCode'', ''underline''] then
        (if children \<noteq> []
         then map (pushTextMark (Mark (getADFMarkType t) None))
                (concat (map (convertInlineTokenToNode emoji) children))
         else [textNode content (Some [Mark (getADFMarkType t) None])])
      else if t = ''link'' then
        (case map_of a ''href'' of
           None \<Rightarrow> [textNode (if content \<noteq> [] then content else raw) None]
         | Some href \<Rightarrow>
            (if \<not> js_truthy href then [textNode (if content \<noteq> [] then content else raw) None]
             else
              (let linkAttrs = [(''href'', href)]
                     @ (case map_of a ''title'' of
                          Some ti \<Rightarrow> if js_truthy ti then [(''title'', ti)] else []
                        | None \<Rightarrow> [])
               in if children \<noteq> []
                  then map (pushTextMark (Mark ''link'' (Some linkAttrs)))
                         (concat (map (convertInlineTokenToNode emoji) children))
                  else [textNode (if content \<noteq> [] then content else ''link'')
                          (Some [Mark ''link'' (Some linkAttrs)])])))
      else [textNode (if content \<noteq> [] then content else raw) None])"

definition convertInlineTokensToNodes :: "emojiTable \<Rightarrow> token list \<Rightarrow> adf list" where
  "convertInlineTokensToNodes emoji tokens = concat (map (convertInlineTokenToNode emoji) tokens)"

definition convertFormattingToken :: "emojiTable \<Rightarrow> token \<Rightarrow> adf list" where
  "convertFormattingToken emoji tk =
     (if tk_children tk \<noteq> []
      then map (pushTextMark (Mark (getADFMarkType (tk_type tk)) None))
             (convertInlineTokensToNodes emoji (tk_children tk))
      else [textNode (tk_content tk) (Some [Mark (getADFMarkType (tk_type tk)) None])])"

text \<open>
  The generic tree of the paragraph \<^verbatim>\<open>**`code`**\<close> (inline code inside strong), and the
  same as tokens.
\<close>

definition strongCode :: mdast where
  "strongCode = Mdast ''strong'' None [Mdast ''inlineCode'' (Some ''code'') [] [] []] [] []"

definition strongCodeToken :: token where
  "strongCodeToken = Token ''strong'' ''`code`'' []
     [Token ''inlineCode'' ''code'' [] [] ''`code`''] ''**`code`**''"

section \<open>Numbers and strings of attribute values\<close>

text \<open>
  \<^verbatim>\<open>Number(value)\<close> for a string: white space around the numeral is ignored; the empty
  string is 0; a numeral is a signed decimal numeral with an optional fraction and exponent,
  a signed \<^verbatim>\<open>Infinity\<close>, or an unsigned hexadecimal, octal or binary integer. Anything else
  is \<^verbatim>\<open>NaN\<close>, which is \<open>None\<close>. The value is exact: the rounding to a double is not
  modelled.
\<close>

text \<open>\<^verbatim>\<open>^([+-]?)(?:(\d+)(?:\.(\d*))?|\.(\d+))(?:[eE]([+-]?)(\d+))?$\<close>\<close>

definition rx_decimal :: rx where
  "rx_decimal = rx_seqs [Bol, Grp 1 (rx_opt (Cls [CChr CHR ''+'', CChr CHR ''-''])),
     Alt (Seq (Grp 2 (rx_plus (Cls [CDigit])))
              (rx_opt (Seq (rx_lit ''.'') (Grp 3 (Star (Cls [CDigit]))))))
         (Seq (rx_lit ''.'') (Grp 4 (rx_plus (Cls [CDigit])))),
     rx_opt (rx_seqs [Cls [CChr CHR ''e'', CChr CHR ''E''],
                      Grp 5 (rx_opt (Cls [CChr CHR ''+'', CChr CHR ''-''])),
                      Grp 6 (rx_plus (Cls [CDigit]))]),
     Eol]"

definition rx_infinity :: rx where
  "rx_infinity = rx_seqs [Bol, Grp 1 (rx_opt (Cls [CChr CHR ''+'', CChr CHR ''-''])),
     rx_lit ''Infinity'', Eol]"

text \<open>\<^verbatim>\<open>^0[xX]([0-9a-fA-F]+)$\<close>, \<^verbatim>\<open>^0[oO]([0-7]+)$\<close>, \<^verbatim>\<open>^0[bB]([01]+)$\<close>\<close>

definition rx_radix :: "char \<Rightarrow> char \<Rightarrow> citem list \<Rightarrow> rx" where
  "rx_radix lo up digits = rx_seqs [Bol, rx_lit ''0'', Cls [CChr lo, CChr up],
     Grp 1 (rx_plus (Cls digits)), Eol]"

definition digit_value :: "char \<Rightarrow> int" where
  "digit_value c =
     (if is_digit c then of_char c - 48
      else if in_range CHR ''a'' CHR ''f'' c then of_char c - 87
      else of_char c - 55)"

definition parse_radix :: "int \<Rightarrow> string \<Rightarrow> int" where
  "parse_radix b s = foldl (\<lambda>acc c. acc * b + digit_value c) 0 s"

definition js_Number :: "string \<Rightarrow> jnum option" where
  "js_Number str =
     (let s = trim str in
      if s = [] then Some (Fin 0)
      else case rx_exec rx_infinity s of
        Some m \<Rightarrow> Some (Inf (grp_str m 1 \<noteq> ''-''))
      | None \<Rightarrow>
       (case rx_exec (rx_radix CHR ''x'' CHR ''X''
                [CDigit, CRng CHR ''a'' CHR ''f'', CRng CHR ''A'' CHR ''F'']) s of
          Some m \<Rightarrow> Some (Fin (of_int (parse_radix 16 (grp_str m 1))))
        | None \<Rightarrow>
         (case rx_exec (rx_radix CHR ''o'' CHR ''O'' [CRng CHR ''0'' CHR ''7'']) s of
            Some m \<Rightarrow> Some (Fin (of_int (parse_radix 8 (grp_str m 1))))
          | None \<Rightarrow>
           (case rx_exec (rx_radix CHR ''b'' CHR ''B'' [CRng CHR ''0'' CHR ''1'']) s of
              Some m \<Rightarrow> Some (Fin (of_int (parse_radix 2 (grp_str m 1))))
            | None \<Rightarrow>
             (case rx_exec rx_decimal s of
                None \<Rightarrow> None
              | Some m \<Rightarrow>
                 (let frac = (case grp m 3 of Some f \<Rightarrow> f | None \<Rightarrow> grp_str m 4);
                      mant = of_int (parse_int (grp_str m 2)) 
                             + of_int (parse_int frac) / (10 ^ length frac);
                      ex = nat (parse_int (grp_str m 6));
                      scaled = (if grp_str m 5 = ''-'' then mant / (10 ^ ex) else mant * (10 ^ ex))
                  in Some (Fin (if grp_str m 1 = ''-'' then - scaled else scaled))))))))"

text \<open>
  The decimal digits after the point of a number between 0 and 1, as far as they go.
\<close>

fun frac_digits :: "nat \<Rightarrow> rat \<Rightarrow> string" where
  "frac_digits 0 r = []"
| "frac_digits (Suc n) r =
     (if r = 0 then []
      else digit_char \<lfloor>r * 10\<rfloor> # frac_digits n (r * 10 - of_int \<lfloor>r * 10\<rfloor>))"

text \<open>
  \<^verbatim>\<open>String(value)\<close>, which a template literal applies: an integer is its decimal numeral,
  another number its decimal expansion (the exponent notation that JavaScript uses for very
  large and very small numbers is not modelled).
\<close>

definition show_num :: "jnum \<Rightarrow> string" where
  "show_num n =
     (case n of
        Inf b \<Rightarrow> (if b then ''Infinity'' else ''-Infinity'')
      | Fin q \<Rightarrow>
          (let a = \<bar>q\<bar>; i = \<lfloor>a\<rfloor>; f = a - of_int i
           in (if q < 0 then ''-'' else []) @ show_digits i
              @ (if f = 0 then [] else ''.'' @ frac_digits 30 f)))"

definition js_toString :: "jval \<Rightarrow> string" where
  "js_toString v =
     (case v of
        JStr s \<Rightarrow> s
      | JNum n \<Rightarrow> show_num n
      | JBool b \<Rightarrow> (if b then ''true'' else ''false'')
      | JObj kvs \<Rightarrow> ''[object Object]'')"

section \<open>Parsing annotation comments (metadata-comments.ts)\<close>

text \<open>The coercion of an attribute value in \<^verbatim>\<open>parseAttributeString\<close>.\<close>

definition coerce :: "string \<Rightarrow> jval" where
  "coerce v =
     (if v = ''true'' then JBool True
      else if v = ''false'' then JBool False
      else case js_Number v of None \<Rightarrow> JStr v | Some n \<Rightarrow> JNum n)"

text \<open>\<^verbatim>\<open>/(\w+)\s*=\s*"([^"]*)"/g\<close>\<close>

definition quotedRegex :: rx where
  "quotedRegex = rx_seqs [Grp 1 (rx_plus (Cls [CWord])), rx_ws, rx_lit ''='', rx_ws,
     rx_lit [CHR 0x22], Grp 2 (Star (NCls [CChr CHR 0x22])), rx_lit [CHR 0x22]]"

text \<open>\<^verbatim>\<open>/(\w+)\s*=\s*([^\s"]+)/g\<close>\<close>

definition unquotedRegex :: rx where
  "unquotedRegex = rx_seqs [Grp 1 (rx_plus (Cls [CWord])), rx_ws, rx_lit ''='', rx_ws,
     Grp 2 (rx_plus (NCls [CSpace, CChr CHR 0x22]))]"

text \<open>
  \<^verbatim>\<open>parseAttributeString\<close>: the quoted pairs, then the unquoted pairs whose key is not set
  yet. A quoted key named \<^verbatim>\<open>hasOwnProperty\<close>, on which the test of the second loop raises
  in the source, is not told apart from other keys.
\<close>

definition parseAttributeString :: "string \<Rightarrow> attrs" where
  "parseAttributeString attrString =
     (let quoted = foldl (\<lambda>a m. obj_set a (grp_str m 1) (coerce (grp_str m 2))) []
                     (matchAll quotedRegex attrString)
      in foldl (\<lambda>a m. if map_of a (grp_str m 1) \<noteq> None then a
                       else obj_set a (grp_str m 1) (coerce (grp_str m 2)))
           quoted (matchAll unquotedRegex attrString))"

text \<open>
  \<^verbatim>\<open>parseAdfMetadataComment\<close>. \<open>jsonParse\<close> is \<^verbatim>\<open>JSON.parse\<close>, \<open>None\<close> when it raises; for
  the legacy form it is expected to give an object.
\<close>

definition parseAdfMetadataComment :: "(string \<Rightarrow> jval option) \<Rightarrow> string \<Rightarrow> metadata option" where
  "parseAdfMetadataComment jsonParse v =
     (case rx_exec withAttrsJson v of
        Some m \<Rightarrow>
          (case jsonParse (grp_str m 2) of
             Some (JObj a) \<Rightarrow> Some (Metadata (grp_str m 1) (Some a) v None)
           | _ \<Rightarrow> Some (Metadata (grp_str m 1) None v None))
      | None \<Rightarrow>
         (case rx_exec withAttrs v of
            Some m \<Rightarrow>
              (let a = parseAttributeString (grp_str m 2)
               in if length a > 0 then Some (Metadata (grp_str m 1) (Some a) v None)
                  else Some (Metadata (grp_str m 1) None v None))
          | None \<Rightarrow>
             (case rx_exec simple v of
                Some m \<Rightarrow> Some (Metadata (grp_str m 1) None v None)
              | None \<Rightarrow>
                 (case rx_exec closing v of
                    Some m \<Rightarrow> Some (Metadata (grp_str m 1) (Some [(''closing'', JBool True)]) v None)
                  | None \<Rightarrow> None))))"

section \<open>Writing annotation comments (metadata-comments.ts)\<close>

text \<open>The tables \<^verbatim>\<open>alwaysFiltered\<close> and \<^verbatim>\<open>defaultValues\<close>.\<close>

definition alwaysFiltered :: "string \<Rightarrow> string list" where
  "alwaysFiltered nodeType =
     (if nodeType = ''heading'' then [''level'']
      else if nodeType = ''panel'' then [''panelType'']
      else if nodeType = ''codeBlock'' then [''language'']
      else if nodeType = ''orderedList'' then [''order'']
      else if nodeType = ''media'' then [''alt'']
      else [])"

definition defaultValues :: "string \<Rightarrow> attrs" where
  "defaultValues nodeType =
     (if nodeType = ''table''
      then [(''isNumberColumnEnabled'', JBool False), (''layout'', JStr ''default'')]
      else [])"

text \<open>\<^verbatim>\<open>===\<close> on attribute values: two objects are never the same object here.\<close>

fun strictEq :: "jval \<Rightarrow> jval \<Rightarrow> bool" where
  "strictEq (JObj a) v = False"
| "strictEq v (JObj b) = False"
| "strictEq u v = (u = v)"

definition filterSignificantAttributes :: "string \<Rightarrow> attrs \<Rightarrow> attrs" where
  "filterSignificantAttributes nodeType a =
     filter (\<lambda>(key, v).
               \<not> (key \<in> set (alwaysFiltered nodeType))
               \<and> \<not> (case map_of (defaultValues nodeType) key of
                       Some d \<Rightarrow> strictEq d v | None \<Rightarrow> False))
            a"

text \<open>\<^verbatim>\<open>.map(([key, value]) => `${key}="${value}"`).join(' ')\<close>\<close>

fun joinWith :: "string \<Rightarrow> string list \<Rightarrow> string" where
  "joinWith sep [] = []"
| "joinWith sep [x] = x"
| "joinWith sep (x # xs) = x @ sep @ joinWith sep xs"

definition attrsString :: "attrs \<Rightarrow> string" where
  "attrsString a =
     joinWith '' '' (map (\<lambda>(key, v). key @ ''='' @ [CHR 0x22] @ js_toString v @ [CHR 0x22]) a)"

definition generateMetadataComment :: "string \<Rightarrow> attrs option \<Rightarrow> string" where
  "generateMetadataComment nodeType a =
     (case a of
        None \<Rightarrow> []
      | Some kvs \<Rightarrow>
          (if length kvs = 0 then []
           else let significantAttrs = filterSignificantAttributes nodeType kvs
                in if length significantAttrs = 0 then []
                   else ''<!-- adf:'' @ nodeType @ '' '' @ attrsString significantAttrs @ '' -->''))"

section \<open>Applying annotations to target nodes (metadata-comments.ts)\<close>

definition nodeTypeMapping :: "string \<Rightarrow> string option" where
  "nodeTypeMapping t =
     map_of [(''cell'', ''tableCell''), (''header'', ''tableHeader''), (''heading'', ''heading''),
             (''paragraph'', ''paragraph''), (''panel'', ''panel''), (''expand'', ''expand'')] t"

definition mergeAttrs :: "adf \<Rightarrow> attrs \<Rightarrow> adf" where
  "mergeAttrs n a =
     Adf (atype n) (Some (obj_merge (case aattrs n of Some b \<Rightarrow> b | None \<Rightarrow> []) a))
       (acontent n) (atext n) (amarks n)"

text \<open>
  The body of the loop of \<^verbatim>\<open>applyMetadataToAdfNode\<close>: the type tested is the one of the
  node given, \<^verbatim>\<open>adfNode.type\<close>.
\<close>

definition applyOne :: "string \<Rightarrow> adf \<Rightarrow> metadata \<Rightarrow> adf" where
  "applyOne adfType updatedNode meta =
     (case md_attrs meta of
        None \<Rightarrow> updatedNode
      | Some a \<Rightarrow>
          (if md_nodeType meta = ''cell'' \<and> (adfType = ''tableCell'' \<or> adfType = ''tableHeader'')
           then mergeAttrs updatedNode a
           else let expectedAdfType = (case nodeTypeMapping (md_nodeType meta) of
                                         Some t \<Rightarrow> t | None \<Rightarrow> md_nodeType meta)
                in if md_nodeType meta = adfType \<or> expectedAdfType = adfType
                   then mergeAttrs updatedNode a
                   else updatedNode))"

definition applyMetadataToAdfNode :: "adf \<Rightarrow> metadata list \<Rightarrow> adf" where
  "applyMetadataToAdfNode adfNode metas =
     (if length metas = 0 then adfNode
      else foldl (applyOne (atype adfNode)) adfNode metas)"

section \<open>Attaching annotations to the tree (metadata-comments.ts)\<close>

text \<open>\<^verbatim>\<open>/^<!--\s*adf:(\w+)\s+(.*?)\s*-->(.*?)<!--\s*\/adf:\w+\s*-->$/\<close>\<close>

definition spanRegex :: rx where
  "spanRegex = rx_seqs [Bol, rx_lit ''<!--'', rx_ws, rx_lit ''adf:'', Grp 1 (rx_plus (Cls [CWord])),
     rx_ws1, Grp 2 (LStar Dot), rx_ws, rx_lit ''-->'', Grp 3 (LStar Dot),
     rx_lit ''<!--'', rx_ws, rx_lit ''/adf:'', rx_plus (Cls [CWord]), rx_ws, rx_lit ''-->'', Eol]"

text \<open>The marks of a span, from its attributes.\<close>

definition spanAttrMark :: "string \<times> jval \<Rightarrow> mark list" where
  "spanAttrMark kv =
     (case kv of (key, v) \<Rightarrow>
        if key = ''underline''
        then (if v = JStr ''true'' \<or> v = JBool True then [Mark ''underline'' None] else [])
        else if key = ''textColor'' then [Mark ''textColor'' (Some [(''color'', v)])]
        else if key = ''backgroundColor'' then [Mark ''backgroundColor'' (Some [(''color'', v)])]
        else if key = ''subsup'' then [Mark ''subsup'' (Some [(''type'', v)])]
        else [])"

definition spanText :: "string \<Rightarrow> string \<Rightarrow> string \<Rightarrow> string \<Rightarrow> mdast" where
  "spanText nodeType attrString content raw =
     (let a = parseAttributeString attrString
      in Mdast ''text'' (Some content) [] []
           [Metadata nodeType (Some a) raw (Some (concat (map spanAttrMark a)))])"

definition valueOf :: "mdast \<Rightarrow> string" where
  "valueOf n = (case mvalue n of Some s \<Rightarrow> s | None \<Rightarrow> [])"

text \<open>
  An opening comment, a text and a closing comment of the same kind, next to each other in
  a paragraph.
\<close>

definition spanTriple :: "mdast \<Rightarrow> mdast \<Rightarrow> mdast \<Rightarrow> mdast option" where
  "spanTriple openingComment textNode' closingComment =
     (if mtype openingComment = ''html'' \<and> mtype textNode' = ''text''
         \<and> mtype closingComment = ''html''
      then (case (rx_exec withAttrs (valueOf openingComment),
                  rx_exec closing (valueOf closingComment)) of
              (Some openMatch, Some closeMatch) \<Rightarrow>
                 if grp_str openMatch 1 = grp_str closeMatch 1
                 then Some (spanText (grp_str openMatch 1) (grp_str openMatch 2) (valueOf textNode')
                              (valueOf openingComment @ valueOf textNode' @ valueOf closingComment))
                 else None
            | _ \<Rightarrow> None)
      else None)"

text \<open>
  The loop over the children of a paragraph: after a replacement the same index is looked
  at again.
\<close>

function collapseSpans :: "mdast list \<Rightarrow> mdast list" where
  "collapseSpans (a # b # c # rest) =
     (case spanTriple a b c of
        Some n \<Rightarrow> collapseSpans (n # rest)
      | None \<Rightarrow> a # collapseSpans (b # c # rest))"
| "collapseSpans [a, b] = [a, b]"
| "collapseSpans [a] = [a]"
| "collapseSpans [] = []"
  by pat_completeness auto
termination
  by (relation "measure length") auto

text \<open>The height of a tree: the measure of the walks over it.\<close>

fun hgt :: "mdast \<Rightarrow> nat" where
  "hgt (Mdast t v cs props meta) = Suc (fold max (map hgt cs) 0)"

lemma fold_max_ge: "x \<in> set xs \<Longrightarrow> x \<le> fold max xs (a::nat)"
proof (induction xs arbitrary: a)
  case Nil
  then show ?case by simp
next
  case (Cons y ys)
  have mono: "b \<le> fold max ys b" for b :: nat
    by (induction ys arbitrary: b) (auto intro: order_trans[OF max.cobounded2])
  from Cons show ?case
  proof (cases "x = y")
    case True
    then show ?thesis using mono[of "max y a"] by simp
  next
    case False
    with Cons show ?thesis by simp
  qed
qed

lemma hgt_child: "x \<in> set (mchildren n) \<Longrightarrow> hgt x < hgt n"
proof (cases n)
  case (Mdast t v cs props meta)
  assume "x \<in> set (mchildren n)"
  then have "hgt x \<in> set (map hgt cs)" using Mdast by simp
  from fold_max_ge[OF this, of 0] show ?thesis using Mdast by simp
qed

lemma hgt_pos: "0 < hgt n"
  by (cases n) simp

lemma collapseSpans_elem:
  "x \<in> set (collapseSpans xs) \<Longrightarrow> x \<in> set xs \<or> hgt x = 1"
proof (induction xs rule: collapseSpans.induct)
  case (1 a b c rest)
  show ?case
  proof (cases "spanTriple a b c")
    case None
    with 1 show ?thesis by auto
  next
    case (Some n)
    then have "hgt n = 1"
      by (auto simp: spanTriple_def spanText_def Let_def split: if_splits option.splits)
    with 1 Some show ?thesis by auto
  qed
qed auto

lemma collapseSpans_hgt:
  assumes "x \<in> set (collapseSpans (mchildren n))"
  shows "hgt x < hgt n"
proof -
  from collapseSpans_elem[OF assms] show ?thesis
  proof
    assume "x \<in> set (mchildren n)"
    then show ?thesis by (rule hgt_child)
  next
    assume h: "hgt x = 1"
    have "mchildren n \<noteq> []" using assms by auto
    then obtain c where "c \<in> set (mchildren n)" by (cases "mchildren n") auto
    from hgt_child[OF this] hgt_pos[of c] h show ?thesis by simp
  qed
qed

text \<open>
  The first walk (\<^verbatim>\<open>processSpanMetadataComments\<close>): an \<^verbatim>\<open>html\<close> node that holds a whole
  span is replaced by a paragraph with one marked text, and is not walked into; the
  children of a paragraph are collapsed before they are walked.
\<close>

function spanNode :: "mdast \<Rightarrow> mdast" where
  "spanNode n =
     (case (if mtype n = ''html'' then rx_exec spanRegex (valueOf n) else None) of
        Some spanMatch \<Rightarrow>
          Mdast ''paragraph'' None
            [spanText (grp_str spanMatch 1) (grp_str spanMatch 2) (grp_str spanMatch 3) (valueOf n)]
            [] []
      | None \<Rightarrow>
          Mdast (mtype n) (mvalue n)
            (map spanNode (if mtype n = ''paragraph'' then collapseSpans (mchildren n)
                           else mchildren n))
            (mprops n) (mmeta n))"
  by pat_completeness auto
termination
proof (relation "measure hgt", goal_cases)
  case 1
  then show ?case by simp
next
  case (2 n x)
  then show ?case
    by (auto intro: hgt_child collapseSpans_hgt split: if_splits)
qed

declare spanNode.simps [simp del]

definition processSpanMetadataComments :: "mdast \<Rightarrow> mdast" where
  "processSpanMetadataComments tree =
     Mdast (mtype tree) (mvalue tree) (map spanNode (mchildren tree)) (mprops tree) (mmeta tree)"

text \<open>
  The second walk (\<^verbatim>\<open>processMetadataComments\<close>). For a parent, the annotations among its
  children that resolve to a target: the index of the comment, its metadata and the target.
\<close>

definition annotationHits ::
  "(string \<Rightarrow> jval option) \<Rightarrow> mdast \<Rightarrow> (nat \<times> metadata \<times> target) list" where
  "annotationHits jsonParse parent =
     concat (map (\<lambda>i.
        let c = mchildren parent ! i in
        if mtype c = ''html'' \<and> mvalue c \<noteq> None \<and> isAdfMetadataComment (valueOf c)
        then (case (parseAdfMetadataComment jsonParse (valueOf c), findMetadataTarget parent i) of
                (Some md, Inr (Some tgt)) \<Rightarrow> [(i, md, tgt)]
              | _ \<Rightarrow> [])
        else [])
       [0 ..< length (mchildren parent)])"

text \<open>
  The walk visits a node before its children and the children in order, and each comment
  pushes its metadata onto the metadata of its target when it is visited. So a node gets the
  metadata of the comments before it among its siblings first, then the metadata of the
  comments among its own children that resolve to it, then the metadata of the comments
  after it among its siblings. \<open>attachNode\<close> gives the node with its children done, and
  the metadata that its own children push onto it; the comments that found a target are
  removed from the children.
\<close>

function attachNode :: "(string \<Rightarrow> jval option) \<Rightarrow> mdast \<Rightarrow> mdast \<times> metadata list" where
  "attachNode jsonParse n =
     (let hits = annotationHits jsonParse n;
          kids = map (\<lambda>j.
                   (case attachNode jsonParse (mchildren n ! j) of
                      (c, own) \<Rightarrow>
                        Mdast (mtype c) (mvalue c) (mchildren c) (mprops c)
                          (mmeta c
                           @ concat (map (\<lambda>(i, md, tgt). if tgt = TChild j \<and> i < j then [md] else []) hits)
                           @ own
                           @ concat (map (\<lambda>(i, md, tgt). if tgt = TChild j \<and> j < i then [md] else []) hits))))
                 (filter (\<lambda>j. j \<notin> set (map fst hits)) [0 ..< length (mchildren n)])
      in (Mdast (mtype n) (mvalue n) kids (mprops n) (mmeta n),
          concat (map (\<lambda>(i, md, tgt). if tgt = TParent then [md] else []) hits)))"
  by pat_completeness auto
termination
proof (relation "measure (\<lambda>(jp, n). hgt n)", goal_cases)
  case 1
  then show ?case by simp
next
  case (2 jsonParse n hits j)
  then have "mchildren n ! j \<in> set (mchildren n)" by simp
  from hgt_child[OF this] show ?case by simp
qed

declare attachNode.simps [simp del]

definition processMetadataComments :: "(string \<Rightarrow> jval option) \<Rightarrow> mdast \<Rightarrow> mdast" where
  "processMetadataComments jsonParse tree =
     (case attachNode jsonParse (processSpanMetadataComments tree) of
        (t, own) \<Rightarrow> Mdast (mtype t) (mvalue t) (mchildren t) (mprops t) (mmeta t @ own))"

text \<open>Sample collaborator: a \<^verbatim>\<open>JSON.parse\<close> that raises on every input.\<close>

definition noJson :: "string \<Rightarrow> jval option" where
  "noJson s = None"

section \<open>From the generic tree to ADF (ASTBuilder.convertMdastNodeToADF)\<close>

text \<open>
  The collaborators of the builder: the emoji table, the options,
  \<^verbatim>\<open>parseBlockContentWithSocialElements\<close> (it needs the tokenizer, which is not among the
  sources) and \<^verbatim>\<open>JSON.parse\<close>.
\<close>

record env =
  e_emoji :: emojiTable
  e_opts :: options
  e_parseBlock :: "string \<Rightarrow> adf list"
  e_jsonParse :: "string \<Rightarrow> jval option"

text \<open>
  What \<^verbatim>\<open>convertMdastNodeToADF\<close> returns: \<^verbatim>\<open>null\<close>, a node, or the marker object
  \<^verbatim>\<open>{ __multipleNodes: [...] }\<close>.
\<close>

datatype conv = CNull | CNode adf | CMulti "adf list"

definition flatten :: "conv list \<Rightarrow> adf list" where
  "flatten rs = concat (map (\<lambda>r. case r of CNull \<Rightarrow> [] | CNode n \<Rightarrow> [n] | CMulti ns \<Rightarrow> ns) rs)"

text \<open>
  \<^verbatim>\<open>.map(child => convertMdastNodeToADF(child)).filter(adfNode => adfNode !== null)\<close> of
  \<^verbatim>\<open>convertAdfFenceNode\<close>: the marker object stays in the list as it is, an object without
  a type.
\<close>

definition nonNull :: "conv list \<Rightarrow> adf list" where
  "nonNull rs = concat (map (\<lambda>r. case r of CNull \<Rightarrow> [] | CNode n \<Rightarrow> [n]
                                  | CMulti ns \<Rightarrow> [Adf ''__multipleNodes'' None (Some ns) None None]) rs)"

definition filterAttributes :: "attrs \<Rightarrow> string list \<Rightarrow> attrs" where
  "filterAttributes a excludeKeys = filter (\<lambda>(key, v). key \<notin> set excludeKeys) a"

text \<open>
  \<^verbatim>\<open>/!\[([^\]]*)\]\(media:([^)]+)\)(?:\s*<!-- adf:media ([^>]*) -->)?/g\<close>
\<close>

definition rx_mediaWithMeta :: rx where
  "rx_mediaWithMeta = rx_seqs [rx_lit ''!['', Grp 1 (Star (NCls [CChr CHR '']''])),
     rx_lit ''](media:'', Grp 2 (rx_plus (NCls [CChr CHR '')''])), rx_lit '')'',
     rx_opt (rx_seqs [rx_ws, rx_lit ''<!-- adf:media '', Grp 3 (Star (NCls [CChr CHR ''>''])),
                      rx_lit '' -->''])]"

definition extractMediaFromContent :: "(string \<Rightarrow> jval option) \<Rightarrow> string \<Rightarrow> adf list" where
  "extractMediaFromContent jsonParse content =
     map (\<lambda>m.
        let a0 = [(''id'', JStr (grp_str m 2)), (''type'', JStr ''file'')];
            a1 = (if grp_str m 3 \<noteq> []
                  then (case jsonParse (map (\<lambda>c. if c = CHR 0x27 then CHR 0x22 else c) (grp_str m 3)) of
                          Some (JObj md) \<Rightarrow> obj_merge a0 md
                        | _ \<Rightarrow> a0)
                  else a0);
            a2 = (if grp_str m 1 \<noteq> [] then obj_set a1 ''alt'' (JStr (grp_str m 1)) else a1)
        in node ''media'' a2)
       (matchAll rx_mediaWithMeta content)"

definition mediaReferences :: "string \<Rightarrow> adf list" where
  "mediaReferences content =
     map (\<lambda>m. node ''mediaReference'' [(''id'', JStr (grp_str m 2)), (''alt'', JStr (grp_str m 1)),
                 (''mediaType'', JStr ''file''), (''collection'', JStr [])])
       (matchAll rx_media content)"

text \<open>
  The attributes of a fence node: the object \<^verbatim>\<open>attributes\<close>, which the fence pass and the
  markup extension always set; a fence node without it is read as one with no attribute.
\<close>

definition fenceAttributes :: "mdast \<Rightarrow> attrs" where
  "fenceAttributes n = (case map_of (mprops n) ''attributes'' of Some (JObj a) \<Rightarrow> a | _ \<Rightarrow> [])"

definition truthyAttr :: "attrs \<Rightarrow> string \<Rightarrow> attrs" where
  "truthyAttr a k = (case map_of a k of Some v \<Rightarrow> if js_truthy v then [(k, v)] else [] | None \<Rightarrow> [])"

text \<open>\<^verbatim>\<open>convertAdfFenceNode\<close>, given the converted content.\<close>

definition convertAdfFenceNode :: "env \<Rightarrow> mdast \<Rightarrow> adf list \<Rightarrow> adf" where
  "convertAdfFenceNode e n content =
     (let nodeType = (case prop_str n ''nodeType'' of Some t \<Rightarrow> t | None \<Rightarrow> ''undefined'');
          a = fenceAttributes n
      in if nodeType = ''panel'' then
           Adf ''panel''
             (Some (obj_merge [(''panelType'', (case map_of a ''type'' of
                                  Some v \<Rightarrow> if js_truthy v then v else JStr ''info''
                                | None \<Rightarrow> JStr ''info''))]
                      (filterAttributes a [''type''])))
             (Some content) None None
         else if nodeType = ''expand'' \<or> nodeType = ''nestedExpand'' then
           Adf nodeType
             (Some (obj_merge (truthyAttr a ''title'') (filterAttributes a [''title''])))
             (Some content) None None
         else if nodeType = ''mediaSingle'' then
           (let mediaNodes = extractMediaFromContent (e_jsonParse e)
                               (case mvalue n of Some v \<Rightarrow> v | None \<Rightarrow> ''undefined'')
            in Adf ''mediaSingle''
                 (Some (obj_merge (obj_merge (truthyAttr a ''layout'') (truthyAttr a ''width''))
                          (filterAttributes a [''layout'', ''width''])))
                 (Some (if length mediaNodes > 0 then mediaNodes else content)) None None)
         else if nodeType = ''mediaGroup'' then
           (let fromValue = (if trim (valueOf n) \<noteq> [] then mediaReferences (valueOf n) else []);
                groupMediaNodes =
                  (if length fromValue = 0 \<and> length content > 0
                   then concat (map (\<lambda>c.
                          if atype c = ''paragraph'' \<and> acontent c \<noteq> None
                          then filter (\<lambda>child. atype child = ''mediaReference'' \<or> atype child = ''media'')
                                 (case acontent c of Some cs \<Rightarrow> cs | None \<Rightarrow> [])
                          else if atype c = ''mediaReference'' \<or> atype c = ''media'' then [c]
                          else []) content)
                   else fromValue)
            in Adf ''mediaGroup'' None
                 (Some (if length groupMediaNodes > 0 then groupMediaNodes else content)) None None)
         else
           Adf ''paragraph'' None
             (Some [textNode (''[ADF '' @ nodeType @ '']: '' @ valueOf n) None]) None None)"

text \<open>
  \<^verbatim>\<open>postProcessInlineCards\<close>: a link followed by an \<^verbatim>\<open>adf:inlineCard\<close> comment becomes
  an inline card.
\<close>

fun linksToConvert :: "mdast list \<Rightarrow> jval option list" where
  "linksToConvert (currentNode # nextNode # rest) =
     (if mtype currentNode = ''link'' \<and> mtype nextNode = ''html''
         \<and> str_includes (valueOf nextNode) ''adf:inlineCard''
      then [map_of (mprops currentNode) ''url''] else [])
     @ linksToConvert (nextNode # rest)"
| "linksToConvert xs = []"

definition postProcessInlineCards :: "adf list \<Rightarrow> mdast list \<Rightarrow> adf list" where
  "postProcessInlineCards content originalNodes =
     (if length originalNodes = 0 then content
      else let links = linksToConvert originalNodes in
           if length links = 0 then content
           else map (\<lambda>n.
                  if atype n = ''text''
                  then (case find (\<lambda>mk. mark_type mk = ''link'')
                               (case amarks n of Some ms \<Rightarrow> ms | None \<Rightarrow> []) of
                          Some linkMark \<Rightarrow>
                            (case map_of (case mark_attrs linkMark of Some a \<Rightarrow> a | None \<Rightarrow> []) ''href'' of
                               Some href \<Rightarrow>
                                 if js_truthy href \<and> Some href \<in> set links
                                 then node ''inlineCard'' [(''url'', href)] else n
                             | None \<Rightarrow> n)
                        | None \<Rightarrow> n)
                  else n) content)"

text \<open>
  The block-level conversion of \<^verbatim>\<open>strong\<close>, \<^verbatim>\<open>emphasis\<close> and \<^verbatim>\<open>link\<close>
  (\<^verbatim>\<open>convertMdastStrong\<close> and its siblings), given the converted children.
\<close>

definition blockMark :: "mark \<Rightarrow> adf list \<Rightarrow> adf" where
  "blockMark mk content =
     (let processedContent = map (pushTextMark mk) content
      in if length processedContent = 1 \<and> atype (hd processedContent) = ''text''
         then hd processedContent
         else Adf ''paragraph'' None (Some processedContent) None None)"

text \<open>The first part of \<^verbatim>\<open>convertMdastParagraph\<close>: a paragraph that is one media image.\<close>

definition paragraphMedia :: "mdast \<Rightarrow> adf option" where
  "paragraphMedia n =
     (case mchildren n of
        [imageNode] \<Rightarrow>
          (if mtype imageNode = ''image''
              \<and> (case prop_str imageNode ''url'' of
                    Some u \<Rightarrow> u \<noteq> [] \<and> rx_test (rx_seqs [Bol, rx_opt (rx_lit ''adf:''), rx_lit ''media:'']) u
                  | None \<Rightarrow> False)
           then convertMdastImage
                  (Mdast (mtype imageNode) (mvalue imageNode) (mchildren imageNode)
                     (mprops imageNode) (mmeta imageNode @ mmeta n))
           else None)
      | _ \<Rightarrow> None)"

lemma hgt_child3:
  "y \<in> set (mchildren n) \<Longrightarrow> xb \<in> set (mchildren y) \<Longrightarrow> xc \<in> set (mchildren xb)
   \<Longrightarrow> hgt xc < hgt n"
proof -
  assume "y \<in> set (mchildren n)" "xb \<in> set (mchildren y)" "xc \<in> set (mchildren xb)"
  then have "hgt y < hgt n" "hgt xb < hgt y" "hgt xc < hgt xb"
    by (auto intro: hgt_child)
  then show ?thesis by simp
qed

text \<open>
  \<^verbatim>\<open>convertMdastNodeToADF\<close>, with \<^verbatim>\<open>convertMdastNodesToADF\<close> written as \<open>flatten\<close> of the
  converted children. The metadata of the node is applied at the end, to a single node.
\<close>

function convertMdastNodeToADF :: "env \<Rightarrow> mdast \<Rightarrow> conv" where
  "convertMdastNodeToADF e n =
     (let t = mtype n;
          withMeta = (\<lambda>r. case r of
                        CNode adfNode \<Rightarrow>
                          if length (mmeta n) > 0 then CNode (applyMetadataToAdfNode adfNode (mmeta n))
                          else CNode adfNode
                      | other \<Rightarrow> other)
      in if t = ''heading'' then
           withMeta (CNode (Adf ''heading''
             (Some (case map_of (mprops n) ''depth'' of Some d \<Rightarrow> [(''level'', d)] | None \<Rightarrow> []))
             (Some (convertMdastInlineNodes (e_emoji e) (e_opts e) (mchildren n))) None None))
         else if t = ''paragraph'' then
           withMeta (case paragraphMedia n of
              Some mediaNode \<Rightarrow> CNode mediaNode
            | None \<Rightarrow>
               (let content = convertMdastInlineNodes (e_emoji e) (e_opts e) (mchildren n)
                in if length content = 0 then CNull
                   else CNode (Adf ''paragraph'' None
                                 (Some (postProcessInlineCards content (mchildren n))) None None)))
         else if t = ''blockquote'' then
           withMeta (CNode (Adf ''blockquote'' None
             (Some (flatten (map (convertMdastNodeToADF e) (mchildren n)))) None None))
         else if t = ''code'' then
           withMeta (CNode (Adf ''codeBlock''
             (Some (case prop_str n ''lang'' of
                      Some l \<Rightarrow> if l \<noteq> [] then [(''language'', JStr l)] else []
                    | None \<Rightarrow> []))
             (Some [textNode (valueOf n) None]) None None))
         else if t = ''list'' then
           withMeta (CNode (Adf
             (if (case map_of (mprops n) ''ordered'' of Some v \<Rightarrow> js_truthy v | None \<Rightarrow> False)
              then ''orderedList'' else ''bulletList'')
             (case map_of (mprops n) ''start'' of
                Some s \<Rightarrow> if js_truthy s \<and> s \<noteq> JNum (Fin 1) then Some [(''order'', s)] else None
              | None \<Rightarrow> None)
             (Some (flatten (map (convertMdastNodeToADF e) (mchildren n)))) None None))
         else if t = ''listItem'' then
           withMeta (CNode (Adf ''listItem'' None
             (Some (flatten (map (convertMdastNodeToADF e) (mchildren n)))) None None))
         else if t = ''table'' then
           withMeta (CNode (Adf ''table'' None
             (Some (concat (map (\<lambda>(i, rowNode).
                  if mtype rowNode = ''tableRow''
                  then [Adf ''tableRow'' None
                          (Some (concat (map (\<lambda>cellNode.
                             if mtype cellNode = ''tableCell''
                             then [let adfNode = Adf (if i = 0 then ''tableHeader'' else ''tableCell'') None
                                         (Some (flatten (map (convertMdastNodeToADF e) (mchildren cellNode))))
                                         None None
                                   in if length (mmeta cellNode) > 0
                                      then applyMetadataToAdfNode adfNode (mmeta cellNode) else adfNode]
                             else []) (mchildren rowNode))))
                          None None]
                  else []) (zip [0 ..< length (mchildren n)] (mchildren n)))))
             None None))
         else if t = ''tableRow'' then
           withMeta (CNode (Adf ''tableRow'' None
             (Some (flatten (map (convertMdastNodeToADF e) (mchildren n)))) None None))
         else if t = ''tableCell'' then
           withMeta (CNode
             (let adfNode = Adf ''tableCell'' None
                    (Some (flatten (map (convertMdastNodeToADF e) (mchildren n)))) None None
              in if length (mmeta n) > 0 then applyMetadataToAdfNode adfNode (mmeta n) else adfNode))
         else if t = ''thematicBreak'' then
           withMeta (CNode (Adf ''rule'' None None None None))
         else if t = ''adfFence'' then
           withMeta (CNode (convertAdfFenceNode e n
             (if length (mchildren n) > 0
              then nonNull (map (convertMdastNodeToADF e) (mchildren n))
              else if trim (valueOf n) \<noteq> [] then e_parseBlock e (trim (valueOf n))
              else [])))
         else if t = ''strong'' then
           withMeta (CNode (blockMark (Mark ''strong'' None)
             (flatten (map (convertMdastNodeToADF e) (mchildren n)))))
         else if t = ''emphasis'' then
           withMeta (CNode (blockMark (Mark ''em'' None)
             (flatten (map (convertMdastNodeToADF e) (mchildren n)))))
         else if t = ''inlineCode'' then
           withMeta (CNode (textNode (valueOf n) (Some [Mark ''code'' None])))
         else if t = ''link'' then
           withMeta (CNode (blockMark
             (Mark ''link'' (Some (case map_of (mprops n) ''url'' of
                                     Some u \<Rightarrow> [(''href'', u)] | None \<Rightarrow> [])))
             (flatten (map (convertMdastNodeToADF e) (mchildren n)))))
         else if t = ''yaml'' \<or> t = ''toml'' then CNull
         else if t = ''text'' then
           (case (case mmeta n of m # _ \<Rightarrow> md_marks m | [] \<Rightarrow> None) of
              Some marks \<Rightarrow> withMeta (CNode (textNode (valueOf n) (Some marks)))
            | None \<Rightarrow>
               (let processedNodes = processTextNodeForSocialElements (e_emoji e) (valueOf n)
                in if length processedNodes = 1 then withMeta (CNode (hd processedNodes))
                   else if length processedNodes > 1 then CMulti processedNodes
                   else withMeta (CNode (textNode [] None))))
         else if t = ''image'' then
           (case convertMdastImage n of Some img \<Rightarrow> withMeta (CNode img) | None \<Rightarrow> CNull)
         else if t = ''html'' then
           (if valueOf n \<noteq> [] \<and> isAdfMetadataComment (valueOf n) then CNull
            else if valueOf n \<noteq> [] \<and> isAdfProcessingDirective (valueOf n) then CNull
            else if preserveUnknownNodes (e_opts e)
                 then withMeta (CNode (Adf ''paragraph'' None
                        (Some [textNode (''[HTML: '' @ (case mvalue n of Some s \<Rightarrow> s | None \<Rightarrow> ''undefined'') @ '']'') None])
                        None None))
                 else CNull)
         else
           (if preserveUnknownNodes (e_opts e)
            then withMeta (CNode (Adf ''paragraph'' None
                   (Some [textNode (''[Unknown node: '' @ t @ '']'') None]) None None))
            else CNull))"
  by pat_completeness auto
termination
  by (relation "measure (\<lambda>(e, n). hgt n)")
     (auto intro: hgt_child hgt_child3 dest: set_zip_rightD)

declare convertMdastNodeToADF.simps [simp del]

definition convertMdastNodesToADF :: "env \<Rightarrow> mdast list \<Rightarrow> adf list" where
  "convertMdastNodesToADF e nodes = flatten (map (convertMdastNodeToADF e) nodes)"

text \<open>\<^verbatim>\<open>buildADFFromMdast\<close>; the frontmatter is not used for the document.\<close>

definition buildADFFromMdast :: "env \<Rightarrow> mdast \<Rightarrow> adfdoc" where
  "buildADFFromMdast e tree =
     \<lparr>doc_version = 1, doc_type = ''doc'', doc_content = convertMdastNodesToADF e (mchildren tree)\<rparr>"

section \<open>From ADF back to the generic tree (ASTBuilder.convertAdfNodeToMdast)\<close>

text \<open>The marks of a text node, applied one after the other in \<^verbatim>\<open>convertAdfInlineToMdast\<close>.\<close>

definition applyMarkMdast :: "string option \<Rightarrow> mdast \<Rightarrow> mark \<Rightarrow> mdast" where
  "applyMarkMdast text result mk =
     (if mark_type mk = ''strong'' then Mdast ''strong'' None [result] [] []
      else if mark_type mk = ''em'' then Mdast ''emphasis'' None [result] [] []
      else if mark_type mk = ''code'' then Mdast ''inlineCode'' text [] [] []
      else if mark_type mk = ''link'' then
        Mdast ''link'' None [result]
          (case map_of (case mark_attrs mk of Some a \<Rightarrow> a | None \<Rightarrow> []) ''href'' of
             Some h \<Rightarrow> [(''url'', h)] | None \<Rightarrow> []) []
      else result)"

definition convertAdfInlineToMdast :: "adf list \<Rightarrow> mdast list" where
  "convertAdfInlineToMdast content =
     map (\<lambda>n.
        if atype n = ''text''
        then foldl (applyMarkMdast (atext n)) (Mdast ''text'' (atext n) [] [] [])
               (case amarks n of Some ms \<Rightarrow> ms | None \<Rightarrow> [])
        else Mdast ''text'' (Some (''['' @ atype n @ '']'')) [] [] []) content"

text \<open>\<^verbatim>\<open>extractContentAsText\<close>, for one node and for a list.\<close>

fun nodeText :: "adf \<Rightarrow> string" where
  "nodeText (Adf t a content text marks) =
     (if t = ''text'' then (case text of Some s \<Rightarrow> s | None \<Rightarrow> [])
      else (case content of Some cs \<Rightarrow> concat (map nodeText cs) | None \<Rightarrow> []))"

definition extractContentAsText :: "adf list \<Rightarrow> string" where
  "extractContentAsText content = concat (map nodeText content)"

text \<open>\<^verbatim>\<open>x || d\<close> on an attribute that may be absent.\<close>

definition orElse :: "attrs option \<Rightarrow> string \<Rightarrow> jval \<Rightarrow> jval" where
  "orElse a k d =
     (case map_of (case a of Some kvs \<Rightarrow> kvs | None \<Rightarrow> []) k of
        Some v \<Rightarrow> if js_truthy v then v else d
      | None \<Rightarrow> d)"

text \<open>The annotation of a media node, written by hand in \<^verbatim>\<open>convertAdfNodeToMdast\<close>.\<close>

definition mediaMetadataAttrs :: "attrs option \<Rightarrow> attrs" where
  "mediaMetadataAttrs a =
     (let kvs = (case a of Some kvs \<Rightarrow> kvs | None \<Rightarrow> []);
          named = [''id'', ''type'', ''collection'', ''width'', ''height''];
          first = foldl (\<lambda>acc k. case map_of kvs k of
                           Some v \<Rightarrow> if js_truthy v then obj_set acc k v else acc
                         | None \<Rightarrow> acc) [] named
      in foldl (\<lambda>acc (k, v). if k \<notin> set (named @ [''alt'']) then obj_set acc k v else acc) first kvs)"

definition htmlNode :: "string \<Rightarrow> mdast" where
  "htmlNode v = Mdast ''html'' (Some v) [] [] []"

text \<open>
  \<^verbatim>\<open>convertAdfNodeToMdast\<close>; the result is the list of the nodes returned (one node, or the
  array of an annotation comment and the node).
\<close>

fun convertAdfNodeToMdast :: "adf \<Rightarrow> mdast list" where
  "convertAdfNodeToMdast (Adf t a content text marks) =
     (let withComment = (\<lambda>mdastNode.
            let metadataComment = generateMetadataComment t a
            in if metadataComment \<noteq> [] then [htmlNode metadataComment, mdastNode] else [mdastNode])
      in if t = ''heading'' then
           withComment (Mdast ''heading'' None
             (convertAdfInlineToMdast (case content of Some cs \<Rightarrow> cs | None \<Rightarrow> []))
             [(''depth'', orElse a ''level'' (JNum (Fin 1)))] [])
         else if t = ''paragraph'' then
           withComment (Mdast ''paragraph'' None
             (convertAdfInlineToMdast (case content of Some cs \<Rightarrow> cs | None \<Rightarrow> [])) [] [])
         else if t = ''panel'' then
           withComment (Mdast ''adfFence''
             (Some (extractContentAsText (case content of Some cs \<Rightarrow> cs | None \<Rightarrow> []))) []
             [(''nodeType'', JStr ''panel''),
              (''attributes'', JObj (obj_merge [(''type'', orElse a ''panelType'' (JStr ''info''))]
                                       (case a of Some kvs \<Rightarrow> kvs | None \<Rightarrow> [])))] [])
         else if t = ''media'' then
           (let mdastNode = Mdast ''image'' None []
                  [(''url'', JStr (''adf:media:'' @ js_toString (orElse a ''id'' (JStr ''unknown'')))),
                   (''alt'', orElse a ''alt'' (JStr ''Media''))] [];
                md = mediaMetadataAttrs a
            in if length md > 0
               then [htmlNode (''<!-- adf:media '' @ attrsString md @ '' -->''), mdastNode]
               else withComment mdastNode)
         else if t = ''mediaSingle'' then
           (let mediaContent = (case content of
                                  Some cs \<Rightarrow> concat (map convertAdfNodeToMdast cs)
                                | None \<Rightarrow> []);
                mediaSingleComment = generateMetadataComment t a
            in if length mediaContent > 0
               then (if mediaSingleComment \<noteq> [] then [htmlNode mediaSingleComment] else [])
                    @ mediaContent
               else withComment (Mdast ''image'' None []
                      [(''url'', JStr ''adf:media:unknown''), (''alt'', JStr ''Media'')] []))
         else
           withComment (Mdast ''paragraph'' None
             [Mdast ''text'' (Some (''['' @ t @ '']'')) [] [] []] [] []))"

definition convertAdfNodesToMdast :: "adf list \<Rightarrow> mdast list" where
  "convertAdfNodesToMdast nodes = concat (map convertAdfNodeToMdast nodes)"

definition buildMdastFromADF :: "adfdoc \<Rightarrow> mdast" where
  "buildMdastFromADF adf = Mdast ''root'' None (convertAdfNodesToMdast (doc_content adf)) [] []"

section \<open>Resolving fence blocks in the tree (MarkdownToAdfEngine.postProcessAdfFenceBlocks)\<close>

definition adfBlockTypes :: "string list" where
  "adfBlockTypes = [''panel'', ''expand'', ''nestedExpand'', ''mediaSingle'', ''mediaGroup'']"

text \<open>The pattern of \<^verbatim>\<open>parseAdfLanguageString\<close>, a word, \<^verbatim>\<open>=\<close> and a bare or quoted value.\<close>

definition rx_pair :: rx where
  "rx_pair = rx_seqs [Grp 1 (rx_plus (Cls [CWord])), rx_lit ''='',
     Grp 2 (Alt (rx_plus (NCls [CChr (CHR 0x22), CChr (CHR 0x27), CSpace]))
           (Alt (rx_seqs [rx_lit [CHR 0x22], Star (NCls [CChr (CHR 0x22)]), rx_lit [CHR 0x22]])
                (rx_seqs [rx_lit [CHR 0x27], Star (NCls [CChr (CHR 0x27)]), rx_lit [CHR 0x27]])))]"

definition endsWith :: "string \<Rightarrow> string \<Rightarrow> bool" where
  "endsWith s suffix = startsWith (rev s) (rev suffix)"

text \<open>
  One pair of \<^verbatim>\<open>parseAdfLanguageString\<close>. \<open>jsonParse\<close> is \<^verbatim>\<open>JSON.parse\<close>, \<open>None\<close> when
  it raises.
\<close>

definition languagePair :: "(string \<Rightarrow> jval option) \<Rightarrow> string \<Rightarrow> attrs \<Rightarrow> string \<Rightarrow> attrs" where
  "languagePair jsonParse lang attributes pair =
     (case rx_exec rx_pair pair of
        None \<Rightarrow> attributes
      | Some m \<Rightarrow>
          (let key = grp_str m 1; v = grp_str m 2
           in if key \<noteq> [] \<and> v \<noteq> [] \<and> key \<noteq> lang then
                (let parsedValue =
                       (if (startsWith v [CHR 0x22] \<and> endsWith v [CHR 0x22])
                           \<or> (startsWith v [CHR 0x27] \<and> endsWith v [CHR 0x27])
                        then butlast (tl v) else v);
                     plain =
                       obj_set attributes key
                         (if parsedValue = ''true'' then JBool True
                          else if parsedValue = ''false'' then JBool False
                          else (case js_Number parsedValue of
                                  Some n \<Rightarrow> if parsedValue \<noteq> [] then JNum n else JStr parsedValue
                                | None \<Rightarrow> JStr parsedValue))
                 in if key = ''attrs'' then
                      (case jsonParse parsedValue of
                         None \<Rightarrow> obj_set attributes key (JStr parsedValue)
                       | Some (JObj parsedAttrs) \<Rightarrow> obj_merge attributes parsedAttrs
                       | Some other \<Rightarrow> plain)
                    else plain)
              else attributes))"

definition parseAdfLanguageString :: "(string \<Rightarrow> jval option) \<Rightarrow> string \<Rightarrow> string \<Rightarrow> attrs" where
  "parseAdfLanguageString jsonParse lang meta =
     foldl (languagePair jsonParse lang) []
       (map m_whole (matchAll rx_pair (trim (lang @ '' '' @ meta))))"

text \<open>
  \<^verbatim>\<open>/^~~~(panel|expand|nestedExpand|mediaSingle|mediaGroup)([^\n]*)\n([\s\S]*?)\n~~~$/\<close>
\<close>

definition adfFencePattern :: rx where
  "adfFencePattern = rx_seqs [Bol, rx_lit ''~~~'',
     Grp 1 (rx_alts [''panel'', ''expand'', ''nestedExpand'', ''mediaSingle'', ''mediaGroup'']),
     Grp 2 (Star (NCls [CChr newline])), rx_lit [newline],
     Grp 3 (LStar (NCls [])), rx_lit [newline], rx_lit ''~~~'', Eol]"

text \<open>
  The first step of \<^verbatim>\<open>processNode\<close>: a code block whose language is a fence type becomes
  a fence node, its children the tree that the inner processor returns for its code. When
  the processor raises, the node keeps its value and has no new children. \<open>parse\<close> is
  \<^verbatim>\<open>innerProcessor.parse\<close> followed by \<^verbatim>\<open>innerProcessor.runSync\<close>.
\<close>

definition codeStep ::
  "(string \<Rightarrow> jval option) \<Rightarrow> (string \<Rightarrow> error + mdast) \<Rightarrow> mdast \<Rightarrow> mdast \<times> bool" where
  "codeStep jsonParse parse n =
     (case prop_str n ''lang'' of
        None \<Rightarrow> (n, False)
      | Some lang \<Rightarrow>
          (if mtype n = ''code'' \<and> lang \<noteq> [] \<and> lang \<in> set adfBlockTypes then
             (let attributes = parseAdfLanguageString jsonParse lang
                                 (case prop_str n ''meta'' of Some m \<Rightarrow> m | None \<Rightarrow> []);
                  props = obj_set (obj_set (mprops n) ''nodeType'' (JStr lang))
                            ''attributes'' (JObj attributes);
                  props' = filter (\<lambda>(k, v). k \<noteq> ''lang'' \<and> k \<noteq> ''meta'') props
              in (case parse (valueOf n) of
                    Inr processedInnerTree \<Rightarrow>
                      (Mdast ''adfFence'' (if lang \<noteq> ''mediaGroup'' then None else mvalue n)
                         (mchildren processedInnerTree) props' (mmeta n), True)
                  | Inl e \<Rightarrow>
                      (Mdast ''adfFence'' (mvalue n) (mchildren n) props' (mmeta n), True)))
           else (n, False)))"

text \<open>
  The second step: a text node whose trimmed value is a whole fence block becomes a fence
  node. When the processor raises the node stays a text.
\<close>

definition textStep ::
  "(string \<Rightarrow> jval option) \<Rightarrow> (string \<Rightarrow> error + mdast) \<Rightarrow> mdast \<Rightarrow> mdast \<times> bool" where
  "textStep jsonParse parse n =
     (if mtype n = ''text'' \<and> valueOf n \<noteq> [] then
        (case rx_exec adfFencePattern (trim (valueOf n)) of
           None \<Rightarrow> (n, False)
         | Some m \<Rightarrow>
             (case parse (grp_str m 3) of
                Inr processedInnerTree \<Rightarrow>
                  (Mdast ''adfFence'' None (mchildren processedInnerTree)
                     (obj_set (obj_set (mprops n) ''nodeType'' (JStr (grp_str m 1)))
                        ''attributes''
                        (JObj (parseAdfLanguageString jsonParse (grp_str m 1) (trim (grp_str m 2)))))
                     (mmeta n), True)
              | Inl e \<Rightarrow> (n, False)))
      else (n, False))"

text \<open>
  \<^verbatim>\<open>processNode\<close>: the two steps, then the children of the node as it is now, those just
  parsed included. The result is the node and whether anything was replaced. The recursion
  goes through the trees that the processor returns, so the depth of the calls is counted:
  \<open>None\<close> when \<open>fuel\<close> nested calls are not enough.
\<close>

fun processNode ::
  "(string \<Rightarrow> jval option) \<Rightarrow> (string \<Rightarrow> error + mdast) \<Rightarrow> nat \<Rightarrow> mdast
     \<Rightarrow> (mdast \<times> bool) option" where
  "processNode jsonParse parse 0 n = None"
| "processNode jsonParse parse (Suc fuel) n =
     (case codeStep jsonParse parse n of
        (n1, c1) \<Rightarrow>
          (case textStep jsonParse parse n1 of
             (n2, c2) \<Rightarrow>
               (case those (map (processNode jsonParse parse fuel) (mchildren n2)) of
                  None \<Rightarrow> None
                | Some rs \<Rightarrow>
                    Some (Mdast (mtype n2) (mvalue n2) (map fst rs) (mprops n2) (mmeta n2),
                          c1 \<or> c2 \<or> list_ex snd rs))))"

text \<open>One pass over the tree: \<^verbatim>\<open>processedTree.children.forEach(processNode)\<close>.\<close>

definition fencePass ::
  "(string \<Rightarrow> jval option) \<Rightarrow> (string \<Rightarrow> error + mdast) \<Rightarrow> nat \<Rightarrow> mdast
     \<Rightarrow> (mdast \<times> bool) option" where
  "fencePass jsonParse parse fuel tree =
     (case those (map (processNode jsonParse parse fuel) (mchildren tree)) of
        None \<Rightarrow> None
      | Some rs \<Rightarrow>
          Some (Mdast (mtype tree) (mvalue tree) (map fst rs) (mprops tree) (mmeta tree),
                list_ex snd rs))"

definition maxPasses :: nat where
  "maxPasses = 5"

text \<open>
  \<^verbatim>\<open>while (hasChanges && passCount < maxPasses)\<close>; the result is the tree and the number of
  passes made.
\<close>

function fenceLoop ::
  "(string \<Rightarrow> jval option) \<Rightarrow> (string \<Rightarrow> error + mdast) \<Rightarrow> nat \<Rightarrow> bool \<Rightarrow> nat \<Rightarrow> mdast
     \<Rightarrow> (mdast \<times> nat) option" where
  "fenceLoop jsonParse parse fuel hasChanges passCount tree =
     (if hasChanges \<and> passCount < maxPasses
      then (case fencePass jsonParse parse fuel tree of
              None \<Rightarrow> None
            | Some (tree', changed) \<Rightarrow> fenceLoop jsonParse parse fuel changed (passCount + 1) tree')
      else Some (tree, passCount))"
  by pat_completeness auto
termination
  by (relation "measure (\<lambda>(jsonParse, parse, fuel, hasChanges, passCount, tree). maxPasses - passCount)")
     auto

declare fenceLoop.simps [simp del]

text \<open>
  \<^verbatim>\<open>postProcessAdfFenceBlocks\<close>: the loop starts with \<^verbatim>\<open>hasChanges = true\<close> and
  \<^verbatim>\<open>passCount = 0\<close>, on a deep copy of the tree.
\<close>

definition postProcessAdfFenceBlocks ::
  "(string \<Rightarrow> jval option) \<Rightarrow> (string \<Rightarrow> error + mdast) \<Rightarrow> nat \<Rightarrow> mdast \<Rightarrow> mdast option" where
  "postProcessAdfFenceBlocks jsonParse parse fuel tree =
     map_option fst (fenceLoop jsonParse parse fuel True 0 tree)"

definition passesMade ::
  "(string \<Rightarrow> jval option) \<Rightarrow> (string \<Rightarrow> error + mdast) \<Rightarrow> nat \<Rightarrow> mdast \<Rightarrow> nat option" where
  "passesMade jsonParse parse fuel tree =
     map_option snd (fenceLoop jsonParse parse fuel True 0 tree)"

section \<open>The stages after parsing (MarkdownToAdfEngine.convertMdastToAdfSync)\<close>

text \<open>\<^verbatim>\<open>cleanupNode\<close> of \<^verbatim>\<open>cleanupEmptyParagraphs\<close>: \<open>None\<close> marks the node for removal.\<close>

fun cleanupNode :: "adf \<Rightarrow> adf option" where
  "cleanupNode (Adf t a content text marks) =
     (case content of
        None \<Rightarrow> Some (Adf t a None text marks)
      | Some cs \<Rightarrow>
          (if t = ''paragraph''
              \<and> list_all (\<lambda>child. atype child = ''text''
                            \<and> (case atext child of None \<Rightarrow> True | Some s \<Rightarrow> s = [] \<or> trim s = [])) cs
           then None
           else Some (Adf t a (Some (concat (map (\<lambda>c. case cleanupNode c of None \<Rightarrow> [] | Some c' \<Rightarrow> [c']) cs))) text marks)))"

definition cleanupEmptyParagraphs :: "adfdoc \<Rightarrow> adfdoc" where
  "cleanupEmptyParagraphs adf = adf \<lparr>doc_content :=
       concat (map (\<lambda>c. case cleanupNode c of None \<Rightarrow> [] | Some c' \<Rightarrow> [c']) (doc_content adf))\<rparr>"

text \<open>
  The frontmatter of \<^verbatim>\<open>convertMdastToAdfSync\<close> is read and not used for the document; it
  only matters when \<^verbatim>\<open>JSON.parse\<close> raises on it.
\<close>

definition frontmatterRaises :: "(string \<Rightarrow> jval option) \<Rightarrow> mdast \<Rightarrow> bool" where
  "frontmatterRaises jsonParse tree =
     (case find (\<lambda>n. mtype n = ''yaml'') (mchildren tree) of
        None \<Rightarrow> False
      | Some frontmatterNode \<Rightarrow>
          (case mvalue frontmatterNode of
             None \<Rightarrow> False
           | Some yamlContent \<Rightarrow>
               startsWith (trim yamlContent) ''{'' \<and> jsonParse yamlContent = None))"

text \<open>
  \<^verbatim>\<open>convertMdastToAdfSync\<close>: annotations, fence blocks, the builder, the clean-up. A
  frontmatter that \<^verbatim>\<open>JSON.parse\<close> rejects raises in strict mode (the text of the JSON error,
  which follows in the message, is left out) and is ignored otherwise. \<open>None\<close> when the fence
  pass runs out of nested calls.
\<close>

definition convertMdastToAdfSync ::
  "env \<Rightarrow> (string \<Rightarrow> error + mdast) \<Rightarrow> nat \<Rightarrow> mdast \<Rightarrow> (error + adfdoc) option" where
  "convertMdastToAdfSync e parse fuel tree =
     (case postProcessAdfFenceBlocks (e_jsonParse e) parse fuel
             (processMetadataComments (e_jsonParse e) tree) of
        None \<Rightarrow> None
      | Some processedTree \<Rightarrow>
          Some (if frontmatterRaises (e_jsonParse e) processedTree \<and> strict (e_opts e)
                then Inl (Error ''Frontmatter parsing failed'')
                else Inr (cleanupEmptyParagraphs (buildADFFromMdast e processedTree))))"

section \<open>Properties of the fence pass\<close>

text \<open>All nodes below a node.\<close>

fun descendants :: "mdast \<Rightarrow> mdast list" where
  "descendants (Mdast t v cs props meta) = cs @ concat (map descendants cs)"

text \<open>A code block whose language is a fence type: what the first step of the pass replaces.\<close>

definition fenceCode :: "mdast \<Rightarrow> bool" where
  "fenceCode n =
     (mtype n = ''code''
      \<and> (case prop_str n ''lang'' of Some lang \<Rightarrow> lang \<in> set adfBlockTypes | None \<Rightarrow> False))"

text \<open>A pass leaves the node as it is: neither step replaces it.\<close>

definition quiet :: "(string \<Rightarrow> jval option) \<Rightarrow> (string \<Rightarrow> error + mdast) \<Rightarrow> mdast \<Rightarrow> bool" where
  "quiet jsonParse parse n =
     (codeStep jsonParse parse n = (n, False) \<and> textStep jsonParse parse n = (n, False))"

text \<open>
  One more than the length of the text that the pass hands to the inner processor at this
  node; 0 when it hands over nothing.
\<close>

definition demand :: "mdast \<Rightarrow> nat" where
  "demand n =
     (if fenceCode n then Suc (length (valueOf n))
      else if mtype n = ''text'' \<and> valueOf n \<noteq> []
      then (case rx_exec adfFencePattern (trim (valueOf n)) of
              Some m \<Rightarrow> Suc (length (grp_str m 3))
            | None \<Rightarrow> 0)
      else 0)"

text \<open>
  The fences that are literal in a tree: the nodes below it that a pass would hand to the
  inner processor, code blocks with a fence language and texts that are a whole fence block.
\<close>

definition literalFences :: "mdast \<Rightarrow> mdast list" where
  "literalFences tree = filter (\<lambda>m. 0 < demand m) (descendants tree)"

text \<open>
  What the pass needs of the inner processor: in the tree it returns for a text, every fence
  is shorter than that text.
\<close>

definition shrinking :: "(string \<Rightarrow> error + mdast) \<Rightarrow> bool" where
  "shrinking parse =
     (\<forall>s t. parse s = Inr t \<longrightarrow> list_all (\<lambda>m. demand m \<le> length s) (descendants t))"

text \<open>
  Sample input: panels nested in one another, each fence one tilde longer than the fence
  inside it, and a processor that reads this nesting and raises on every other text.
\<close>

fun nest :: "nat \<Rightarrow> string" where
  "nest 0 = ''innermost''"
| "nest (Suc k) =
     replicate (k + 3) CHR ''~'' @ ''panel'' @ [newline] @ nest k @ [newline]
     @ replicate (k + 3) CHR ''~''"

definition fenceOf :: "nat \<Rightarrow> mdast" where
  "fenceOf k = Mdast ''code'' (Some (nest k)) [] [(''lang'', JStr ''panel'')] []"

definition nestParse :: "string \<Rightarrow> error + mdast" where
  "nestParse s =
     (if s = nest 0
      then Inr (Mdast ''root'' None
                  [Mdast ''paragraph'' None [Mdast ''text'' (Some ''innermost'') [] [] []] [] []]
                  [] [])
      else (case find (\<lambda>k. s = nest (Suc k)) [0 ..< length s] of
              Some k \<Rightarrow> Inr (Mdast ''root'' None [fenceOf k] [] [])
            | None \<Rightarrow> Inl (Error ''unsupported'')))"

text \<open>The tree of six panels nested in one another.\<close>

definition sixDeep :: mdast where
  "sixDeep = Mdast ''root'' None [fenceOf 5] [] []"

fun panels :: "nat \<Rightarrow> mdast" where
  "panels 0 = Mdast ''paragraph'' None [Mdast ''text'' (Some ''innermost'') [] [] []] [] []"
| "panels (Suc k) =
     Mdast ''adfFence'' None [panels k] [(''nodeType'', JStr ''panel''), (''attributes'', JObj [])] []"

text \<open>The same nesting as a document, and sample collaborators of the builder.\<close>

fun adfPanels :: "nat \<Rightarrow> adf" where
  "adfPanels 0 = Adf ''paragraph'' None (Some [textNode ''innermost'' None]) None None"
| "adfPanels (Suc k) =
     Adf ''panel'' (Some [(''panelType'', JStr ''info'')]) (Some [adfPanels k]) None None"

definition sampleEnv :: env where
  "sampleEnv = \<lparr>e_emoji = noEmoji, e_opts = \<lparr>strict = False, preserveUnknownNodes = True\<rparr>,
                 e_parseBlock = (\<lambda>s. []), e_jsonParse = noJson\<rparr>"

section \<open>Sample document with an annotated heading\<close>

definition headingDoc :: adfdoc where
  "headingDoc = \<lparr>doc_version = 1, doc_type = ''doc'', doc_content =
     [Adf ''heading''
        (Some [(''level'', JNum (Fin 1)), (''id'', JStr ''x''), (''textAlign'', JStr ''center'')])
        (Some [textNode ''Title'' None]) None None]\<rparr>"

definition headingComment :: string where
  "headingComment = ''<!-- adf:heading id='' @ [CHR 0x22] @ ''x'' @ [CHR 0x22]
     @ '' textAlign='' @ [CHR 0x22] @ ''center'' @ [CHR 0x22] @ '' -->''"

definition headingMarkup :: string where
  "headingMarkup = headingComment @ [newline, newline] @ ''# Title''"

text \<open>
  The tree of this markup, and sample collaborators: a processor that reads this markup and
  raises on every other text, and the stages after parsing with two nested calls.
\<close>

definition headingTree :: mdast where
  "headingTree = Mdast ''root'' None
         [Mdast ''html'' (Some headingComment) [] [] [],
          Mdast ''heading'' None [Mdast ''text'' (Some ''Title'') [] [] []]
            [(''depth'', JNum (Fin 1))] []] [] []"

definition headingParse :: "string \<Rightarrow> error + mdast" where
  "headingParse s = (if s = headingMarkup then Inr headingTree else Inl (Error ''unsupported''))"

definition headingStages :: "mdast \<Rightarrow> error + adfdoc" where
  "headingStages t = (case convertMdastToAdfSync sampleEnv headingParse 2 t of
                        Some r \<Rightarrow> r | None \<Rightarrow> Inl (Error ''depth''))"

section \<open>Target resolution of annotations\<close>










lemma prevTarget_no_error:
  "i \<le> length cs \<Longrightarrow> prevTarget cs i \<noteq> Inl e"
  by (induction i) auto



section \<open>Consecutive containers of the same kind\<close>

lemma pp_same_kind_step:
  "atype a = atype b \<Longrightarrow>
   postProcessNestedAdfFenceBlocks (a # b # rest) = a # postProcessNestedAdfFenceBlocks (b # rest)"
  by (simp add: postProcessNestedAdfFenceBlocks.simps(2)[of a])

lemma pp_cases:
  "postProcessNestedAdfFenceBlocks (x # rest) = x # postProcessNestedAdfFenceBlocks rest
   \<or> postProcessNestedAdfFenceBlocks (x # rest)
       = enhancedNode x (takeWhile absorbable rest)
           # postProcessNestedAdfFenceBlocks (dropWhile absorbable rest)"
  unfolding postProcessNestedAdfFenceBlocks.simps(2)[of x rest] Let_def
  by (cases "(atype x = ''expand'' \<or> atype x = ''panel'') \<and> rest \<noteq> []";
      cases "atype (hd rest) = atype x";
      cases "atype x = ''panel'' \<and> list_all (\<lambda>n. atype n = ''panel'') (take 3 rest) \<and> rest \<noteq> []";
      cases "takeWhile absorbable rest \<noteq> []";
      simp only: if_True if_False simp_thms)

lemma pp_head:
  "\<exists>c others. postProcessNestedAdfFenceBlocks (x # rest)
     = Adf (atype x) (aattrs x) c (atext x) (amarks x) # others"
proof -
  have x: "x = Adf (atype x) (aattrs x) (acontent x) (atext x) (amarks x)" by simp
  from pp_cases[of x rest] show ?thesis
  proof
    assume "postProcessNestedAdfFenceBlocks (x # rest) = x # postProcessNestedAdfFenceBlocks rest"
    with x show ?thesis by metis
  next
    assume "postProcessNestedAdfFenceBlocks (x # rest)
       = enhancedNode x (takeWhile absorbable rest)
           # postProcessNestedAdfFenceBlocks (dropWhile absorbable rest)"
    then show ?thesis unfolding enhancedNode_def by blast
  qed
qed

lemma pp_collects:
  "postProcessNestedAdfFenceBlocks (x # rest)
     = (if collects x rest
        then enhancedNode x (takeWhile absorbable rest)
               # postProcessNestedAdfFenceBlocks (dropWhile absorbable rest)
        else x # postProcessNestedAdfFenceBlocks rest)"
  unfolding postProcessNestedAdfFenceBlocks.simps(2)[of x rest] Let_def collects_def
  by (cases "(atype x = ''expand'' \<or> atype x = ''panel'') \<and> rest \<noteq> []";
      cases "atype (hd rest) = atype x";
      cases "atype x = ''panel'' \<and> list_all (\<lambda>n. atype n = ''panel'') (take 3 rest) \<and> rest \<noteq> []";
      cases "takeWhile absorbable rest \<noteq> []";
      simp only: if_True if_False simp_thms; simp)

lemma visited_output:
  "ys \<in> set (visited xs) \<Longrightarrow>
     \<exists>before. postProcessNestedAdfFenceBlocks xs = before @ postProcessNestedAdfFenceBlocks ys"
proof (induction xs rule: visited.induct)
  case 1
  then show ?case by (simp add: visited.simps)
next
  case (2 x rest)
  let ?next = "if collects x rest then dropWhile absorbable rest else rest"
  from "2.prems" have "ys = x # rest \<or> ys \<in> set (visited ?next)"
    by (simp add: visited.simps(2)[of x rest])
  then show ?case
  proof
    assume "ys = x # rest"
    then show ?thesis by simp
  next
    assume "ys \<in> set (visited ?next)"
    from "2.IH"[OF this] obtain before
      where b: "postProcessNestedAdfFenceBlocks ?next = before @ postProcessNestedAdfFenceBlocks ys"
      by blast
    show ?thesis
    proof (cases "collects x rest")
      case True
      with b have "postProcessNestedAdfFenceBlocks (x # rest)
          = (enhancedNode x (takeWhile absorbable rest) # before)
            @ postProcessNestedAdfFenceBlocks ys"
        by (simp add: pp_collects)
      then show ?thesis by blast
    next
      case False
      with b have "postProcessNestedAdfFenceBlocks (x # rest)
          = (x # before) @ postProcessNestedAdfFenceBlocks ys"
        by (simp add: pp_collects)
      then show ?thesis by blast
    qed
  qed
qed

text \<open>
  Two panels in a row after a panel and a paragraph: the first panel is followed by a node
  of another type, so it collects the paragraph and the two panels after it, and the loop
  does not run at them. The two panels end up in the content of the panel before them. In
  the same way three panels in a row after an expand end up in the content of the expand.
\<close>

theorem run_after_collecting_container_absorbed:
  "postProcessNestedAdfFenceBlocks
     [panelOf ''a'', paragraphOf ''p'', panelOf ''b'', panelOf ''c'']
   = [Adf ''panel'' (Some [(''panelType'', JStr ''info'')])
        (Some [paragraphOf ''a'', paragraphOf ''p'', panelOf ''b'', panelOf ''c'']) None None]
   \<and> visited [panelOf ''a'', paragraphOf ''p'', panelOf ''b'', panelOf ''c'']
     = [[panelOf ''a'', paragraphOf ''p'', panelOf ''b'', panelOf ''c'']]
   \<and> postProcessNestedAdfFenceBlocks
       [expandOf ''e'', panelOf ''a'', panelOf ''b'', panelOf ''c'']
     = [Adf ''expand'' (Some [(''title'', JStr ''e'')])
          (Some [panelOf ''a'', panelOf ''b'', panelOf ''c'']) None None]"
proof (intro conjI)
  show "postProcessNestedAdfFenceBlocks
     [panelOf ''a'', paragraphOf ''p'', panelOf ''b'', panelOf ''c'']
   = [Adf ''panel'' (Some [(''panelType'', JStr ''info'')])
        (Some [paragraphOf ''a'', paragraphOf ''p'', panelOf ''b'', panelOf ''c'']) None None]"
    by code_simp
  show "visited [panelOf ''a'', paragraphOf ''p'', panelOf ''b'', panelOf ''c'']
     = [[panelOf ''a'', paragraphOf ''p'', panelOf ''b'', panelOf ''c'']]"
    by code_simp
  show "postProcessNestedAdfFenceBlocks
       [expandOf ''e'', panelOf ''a'', panelOf ''b'', panelOf ''c'']
     = [Adf ''expand'' (Some [(''title'', JStr ''e'')])
          (Some [panelOf ''a'', panelOf ''b'', panelOf ''c'']) None None]"
    by code_simp
qed

text \<open>
  Claim C5, amended. A run of consecutive nodes of one kind at one level (three panels in
  a row) stays a run of siblings whenever the loop reaches its first node, which it does
  when the run starts the list and whenever no panel or expand before the run is collecting
  the nodes up to it: every node of the run but the last is put out unchanged, and the last
  one is put out as a node of its own, with its type and attributes, after them. No node of
  the run is moved into the content of the node of the run before it; what follows the run
  is consolidated with the last node alone. A panel or expand that collects takes every
  container, media block and paragraph after it up to the first other node: a run of
  containers of one kind in that stretch becomes, as a whole, content of the collecting node.
\<close>

theorem same_kind_run_siblings_when_reached:
  assumes "run \<noteq> []" and "\<forall>x \<in> set run. atype x = t"
  shows "postProcessNestedAdfFenceBlocks (run @ rest)
           = butlast run @ postProcessNestedAdfFenceBlocks (last run # rest)
       \<and> (\<exists>c others. postProcessNestedAdfFenceBlocks (last run # rest)
             = Adf t (aattrs (last run)) c (atext (last run)) (amarks (last run)) # others)
       \<and> postProcessNestedAdfFenceBlocks run = run
       \<and> (run @ rest \<in> set (visited content) \<longrightarrow>
            (\<exists>before. postProcessNestedAdfFenceBlocks content
               = before @ butlast run @ postProcessNestedAdfFenceBlocks (last run # rest)))
       \<and> (collects y (pre @ run @ rest) \<and> list_all absorbable pre \<and> isAdfFenceBlockType t \<longrightarrow>
            postProcessNestedAdfFenceBlocks (y # pre @ run @ rest)
              = enhancedNode y (pre @ run @ takeWhile absorbable rest)
                  # postProcessNestedAdfFenceBlocks (dropWhile absorbable rest))"
proof -
  have main: "postProcessNestedAdfFenceBlocks (run @ rest)
           = butlast run @ postProcessNestedAdfFenceBlocks (last run # rest)" for rest
    using assms
  proof (induction run)
    case Nil
    then show ?case by simp
  next
    case (Cons a run)
    show ?case
    proof (cases run)
      case Nil
      then show ?thesis by simp
    next
      case (Cons b run')
      have same: "atype a = atype b" using Cons.prems Cons by simp
      have "postProcessNestedAdfFenceBlocks ((a # run) @ rest)
          = a # postProcessNestedAdfFenceBlocks (run @ rest)"
        using pp_same_kind_step[OF same] Cons by simp
      also have "postProcessNestedAdfFenceBlocks (run @ rest)
          = butlast run @ postProcessNestedAdfFenceBlocks (last run # rest)"
        using Cons.IH Cons.prems Cons by simp
      finally show ?thesis using Cons by simp
    qed
  qed
  have lt: "atype (last run) = t" using assms by simp
  have single: "postProcessNestedAdfFenceBlocks [x] = [x]" for x
    by (simp add: postProcessNestedAdfFenceBlocks.simps)
  have "postProcessNestedAdfFenceBlocks run = butlast run @ [last run]"
    using main[of "[]"] single by simp
  then have whole: "postProcessNestedAdfFenceBlocks run = run" using assms(1) by simp
  have reached: "\<exists>before. postProcessNestedAdfFenceBlocks content
               = before @ butlast run @ postProcessNestedAdfFenceBlocks (last run # rest)"
    if "run @ rest \<in> set (visited content)"
  proof -
    from visited_output[OF that] obtain before
      where "postProcessNestedAdfFenceBlocks content
               = before @ postProcessNestedAdfFenceBlocks (run @ rest)"
      by blast
    with main[of rest] show ?thesis by auto
  qed
  have absorbed: "postProcessNestedAdfFenceBlocks (y # pre @ run @ rest)
              = enhancedNode y (pre @ run @ takeWhile absorbable rest)
                  # postProcessNestedAdfFenceBlocks (dropWhile absorbable rest)"
    if c: "collects y (pre @ run @ rest)" and p: "list_all absorbable pre"
      and f: "isAdfFenceBlockType t"
  proof -
    have r: "\<forall>x\<in>set run. absorbable x"
      using assms(2) f by (simp add: absorbable_def)
    have tw: "takeWhile absorbable (pre @ run @ rest) = pre @ run @ takeWhile absorbable rest"
      using p r by (simp add: list_all_iff takeWhile_append2)
    have dw: "dropWhile absorbable (pre @ run @ rest) = dropWhile absorbable rest"
      using p r by (simp add: list_all_iff dropWhile_append2)
    show ?thesis
      using c by (simp add: pp_collects tw dw)
  qed
  show ?thesis
    using main[of rest] pp_head[of "last run" rest] lt whole reached absorbed by simp
qed

theorem same_kind_run_siblings_when_reached_witness:
  "[panelOf ''b'', panelOf ''c''] \<noteq> []
   \<and> list_all (\<lambda>x. atype x = ''panel'') [panelOf ''b'', panelOf ''c'']
   \<and> [panelOf ''b'', panelOf ''c''] @ []
       \<in> set (visited [paragraphOf ''p'', panelOf ''b'', panelOf ''c''])
   \<and> collects (expandOf ''e'') ([paragraphOf ''p''] @ [panelOf ''b'', panelOf ''c''] @ [])
   \<and> list_all absorbable [paragraphOf ''p'']
   \<and> isAdfFenceBlockType ''panel''
   \<and> postProcessNestedAdfFenceBlocks [panelOf ''b'', panelOf ''c'']
       = [panelOf ''b'', panelOf ''c'']
   \<and> (\<exists>before. postProcessNestedAdfFenceBlocks [paragraphOf ''p'', panelOf ''b'', panelOf ''c'']
                  = before @ [panelOf ''b'', panelOf ''c''])
   \<and> postProcessNestedAdfFenceBlocks
         [expandOf ''e'', paragraphOf ''p'', panelOf ''b'', panelOf ''c'']
       = [enhancedNode (expandOf ''e'') [paragraphOf ''p'', panelOf ''b'', panelOf ''c'']]"
proof -
  have ne: "[panelOf ''b'', panelOf ''c''] \<noteq> []"
    by simp
  have h: "\<forall>x \<in> set [panelOf ''b'', panelOf ''c'']. atype x = ''panel''"
    by (simp add: panelOf_def)
  have v: "[panelOf ''b'', panelOf ''c''] @ []
       \<in> set (visited [paragraphOf ''p'', panelOf ''b'', panelOf ''c''])"
    by code_simp
  have c: "collects (expandOf ''e'') ([paragraphOf ''p''] @ [panelOf ''b'', panelOf ''c''] @ [])"
    by code_simp
  have p: "list_all absorbable [paragraphOf ''p'']"
    by code_simp
  have f: "isAdfFenceBlockType ''panel''"
    by code_simp
  have e: "postProcessNestedAdfFenceBlocks [] = []"
    by (simp add: postProcessNestedAdfFenceBlocks.simps)
  have s: "postProcessNestedAdfFenceBlocks [panelOf ''c''] = [panelOf ''c'']"
    by (simp add: postProcessNestedAdfFenceBlocks.simps)
  from same_kind_run_siblings_when_reached [OF ne h,
      of "[]" "[paragraphOf ''p'', panelOf ''b'', panelOf ''c'']" "expandOf ''e''"
         "[paragraphOf ''p'']"]
    v c p f e s
  have "postProcessNestedAdfFenceBlocks [panelOf ''b'', panelOf ''c'']
          = [panelOf ''b'', panelOf ''c'']
      \<and> (\<exists>before. postProcessNestedAdfFenceBlocks [paragraphOf ''p'', panelOf ''b'', panelOf ''c'']
                  = before @ [panelOf ''b'', panelOf ''c''])
      \<and> postProcessNestedAdfFenceBlocks
            [expandOf ''e'', paragraphOf ''p'', panelOf ''b'', panelOf ''c'']
          = [enhancedNode (expandOf ''e'') [paragraphOf ''p'', panelOf ''b'', panelOf ''c'']]"
    by simp
  with ne v c p f show ?thesis
    by (simp add: panelOf_def)
qed

section \<open>Empty input\<close>

text \<open>
  Claim C7. In non-strict mode \<^verbatim>\<open>convert\<close> returns the empty document
  \<^verbatim>\<open>{version: 1, type: "doc", content: []}\<close> for an input that is not a string, for the
  empty string and for a string of white space only; in strict mode an input that is not a
  string and the empty string raise an error.
\<close>

theorem convert_empty_input:
  "(\<not> strict opts \<longrightarrow>
       convert opts parse toAdf NonString
         = Inr \<lparr>doc_version = 1, doc_type = ''doc'', doc_content = []\<rparr>
     \<and> (\<forall>s. trim s = [] \<longrightarrow>
            convert opts parse toAdf (JString s)
              = Inr \<lparr>doc_version = 1, doc_type = ''doc'', doc_content = []\<rparr>))
   \<and> (strict opts \<longrightarrow>
       convert opts parse toAdf NonString
         = Inl (Error ''Invalid markdown input: must be a non-empty string'')
     \<and> convert opts parse toAdf (JString [])
         = Inl (Error ''Invalid markdown input: must be a non-empty string''))"
  by (auto simp: convert_def emptyDoc_def)

theorem convert_empty_input_witness:
  "\<not> strict \<lparr>strict = False, preserveUnknownNodes = True\<rparr>
   \<and> trim ('' '' @ [newline, CHR 0x09]) = []
   \<and> convert \<lparr>strict = False, preserveUnknownNodes = True\<rparr> failingParse failingBuild NonString
       = Inr \<lparr>doc_version = 1, doc_type = ''doc'', doc_content = []\<rparr>
   \<and> convert \<lparr>strict = False, preserveUnknownNodes = True\<rparr> failingParse failingBuild
         (JString ('' '' @ [newline, CHR 0x09]))
       = Inr \<lparr>doc_version = 1, doc_type = ''doc'', doc_content = []\<rparr>
   \<and> convert \<lparr>strict = False, preserveUnknownNodes = True\<rparr> failingParse failingBuild
         (JString [])
       = Inr \<lparr>doc_version = 1, doc_type = ''doc'', doc_content = []\<rparr>
   \<and> strict \<lparr>strict = True, preserveUnknownNodes = True\<rparr>
   \<and> convert \<lparr>strict = True, preserveUnknownNodes = True\<rparr> failingParse failingBuild NonString
       = Inl (Error ''Invalid markdown input: must be a non-empty string'')
   \<and> convert \<lparr>strict = True, preserveUnknownNodes = True\<rparr> failingParse failingBuild
         (JString [])
       = Inl (Error ''Invalid markdown input: must be a non-empty string'')"
proof -
  have t: "trim ('' '' @ [newline, CHR 0x09]) = []" "trim [] = []"
    by code_simp+
  show ?thesis
    using t
      convert_empty_input [of "\<lparr>strict = False, preserveUnknownNodes = True\<rparr>" failingParse failingBuild]
      convert_empty_input [of "\<lparr>strict = True, preserveUnknownNodes = True\<rparr>" failingParse failingBuild]
    by simp
qed

section \<open>Rewriting of consecutive comments\<close>

lemma rmatch_lit:
  "rmatch (rx_lit p) (pre, u, cs)
     = (if startsWith u p then [(rev p @ pre, drop (length p) u, cs)] else [])"
proof (induction p arbitrary: pre u rule: rx_lit.induct)
  case 1
  then show ?case by simp
next
  case (2 c)
  then show ?case by (cases u) (simp_all add: cls_has_def)
next
  case (3 c d ds)
  then show ?case by (cases u) (simp_all add: cls_has_def)
qed

lemma space_not_lt: "is_space c \<Longrightarrow> c \<noteq> CHR ''<''"
  by (auto simp: is_space_def)

lemma star_space_then_lit:
  "length t \<le> n \<Longrightarrow>
   concat (map (rmatch (rx_lit ''<!--'')) (iter n True (rmatch (Cls [CSpace])) (pre, t, cs)))
     = (if startsWith (dropWhile is_space t) ''<!--''
        then [(rev ''<!--'' @ rev (takeWhile is_space t) @ pre,
               drop 4 (dropWhile is_space t), cs)]
        else [])"
proof (induction t arbitrary: n pre)
  case Nil
  have "iter n True (rmatch (Cls [CSpace])) (pre, [], cs) = [(pre, [], cs)]"
    by (cases n) simp_all
  then show ?case by (simp add: rmatch_lit del: rmatch.simps rx_lit.simps)
next
  case (Cons c t)
  then obtain n' where n: "n = Suc n'" "length t \<le> n'" by (cases n) auto
  show ?case
  proof (cases "is_space c")
    case True
    have "iter n True (rmatch (Cls [CSpace])) (pre, c # t, cs)
        = iter n' True (rmatch (Cls [CSpace])) (c # pre, t, cs) @ [(pre, c # t, cs)]"
      using True n by (simp add: cls_has_def)
    moreover have "rmatch (rx_lit ''<!--'') (pre, c # t, cs) = []"
      using space_not_lt[OF True] by (simp add: rmatch_lit del: rmatch.simps rx_lit.simps)
    ultimately show ?thesis
      using Cons.IH[OF n(2), of "c # pre"] True
      by (simp del: rmatch.simps rx_lit.simps)
  next
    case False
    have "iter n True (rmatch (Cls [CSpace])) (pre, c # t, cs) = [(pre, c # t, cs)]"
      using False n by (simp add: cls_has_def)
    moreover have "\<not> is_space CHR ''<''" by (simp add: is_space_def)
    ultimately show ?thesis
      using False by (simp add: rmatch_lit eval_nat_numeral del: rmatch.simps rx_lit.simps)
  qed
qed

lemma rmatch_consecutive:
  "rmatch rx_consecutive (pre, s, [])
     = (if startsOccurrence s
        then [(rev ''<!--'' @ rev (takeWhile is_space (drop 3 s)) @ rev ''-->'' @ pre,
               drop 4 (dropWhile is_space (drop 3 s)),
               [(1, take (length (drop 3 s) - length (drop 4 (dropWhile is_space (drop 3 s))))
                      (drop 3 s))])]
        else [])"
proof -
  have "rmatch rx_consecutive (pre, s, [])
      = concat (map (rmatch (Grp 1 (Seq (Star (Cls [CSpace])) (rx_lit ''<!--''))))
          (rmatch (rx_lit ''-->'') (pre, s, [])))"
    unfolding rx_consecutive_def by (simp only: rmatch.simps)
  also have "\<dots> = (if startsWith s ''-->''
       then rmatch (Grp 1 (Seq (Star (Cls [CSpace])) (rx_lit ''<!--''))) (rev ''-->'' @ pre, drop 3 s, [])
       else [])"
    by (simp add: rmatch_lit eval_nat_numeral del: rmatch.simps rx_lit.simps)
  finally have a: "rmatch rx_consecutive (pre, s, [])
     = (if startsWith s ''-->''
       then rmatch (Grp 1 (Seq (Star (Cls [CSpace])) (rx_lit ''<!--''))) (rev ''-->'' @ pre, drop 3 s, [])
       else [])" .
  have b: "rmatch (Grp 1 (Seq (Star (Cls [CSpace])) (rx_lit ''<!--''))) (p, t, [])
     = (if startsWith (dropWhile is_space t) ''<!--''
        then [(rev ''<!--'' @ rev (takeWhile is_space t) @ p, drop 4 (dropWhile is_space t),
               [(1, take (length t - length (drop 4 (dropWhile is_space t))) t)])]
        else [])" for p t
    using star_space_then_lit[of t "length t" p "[]"]
    by (simp del: rx_lit.simps iter.simps)
  show ?thesis
    unfolding a startsOccurrence_def b
    by simp
qed

lemma replace_loop_skip:
  assumes "rmatch r (pre, c # s, []) = []"
  shows "replace_loop r f pre (c # s) = c # replace_loop r f (c # pre) s"
proof -
  have eq: "rsearch r pre (c # s) = rsearch r (c # pre) s"
    using assms by (subst rsearch.simps) simp
  show ?thesis
  proof (cases "rsearch r (c # pre) s")
    case None
    have "replace_loop r f pre (c # s) = c # s"
      by (subst replace_loop.simps) (simp add: eq None)
    moreover have "replace_loop r f (c # pre) s = s"
      by (subst replace_loop.simps) (simp add: None)
    ultimately show ?thesis by simp
  next
    case (Some m)
    from rsearch_bounds[OF Some] have le: "Suc (length pre) \<le> m_index m" by simp
    define k where "k = m_index m - Suc (length pre)"
    have k1: "m_index m - length pre = Suc k" using le k_def by simp
    have k2: "m_index m - length (c # pre) = k" using k_def by simp
    have L: "replace_loop r f pre (c # s) =
        (let n = length (m_whole m)
         in take (Suc k) (c # s) @ f m @
            (if n = 0
             then (case drop (Suc k) (c # s) of
                     [] \<Rightarrow> []
                   | d # ds \<Rightarrow> d # replace_loop r f (d # rev (take (Suc k) (c # s)) @ pre) ds)
             else replace_loop r f (rev (take (Suc k + n) (c # s)) @ pre) (drop (Suc k + n) (c # s))))"
      by (subst replace_loop.simps) (simp only: eq Some option.case k1 Let_def)
    have R: "replace_loop r f (c # pre) s =
        (let n = length (m_whole m)
         in take k s @ f m @
            (if n = 0
             then (case drop k s of
                     [] \<Rightarrow> []
                   | d # ds \<Rightarrow> d # replace_loop r f (d # rev (take k s) @ c # pre) ds)
             else replace_loop r f (rev (take (k + n) s) @ c # pre) (drop (k + n) s)))"
      by (subst replace_loop.simps) (simp only: Some option.case k2 Let_def)
    show ?thesis unfolding L R by (simp add: Let_def split: list.splits)
  qed
qed

lemma replace_loop_hit:
  assumes "rmatch r (pre, s, []) = (p', rest', cs) # others" and "length rest' < length s"
  shows "replace_loop r f pre s
       = f \<lparr>m_index = length pre, m_whole = take (length s - length rest') s, m_groups = cs\<rparr>
         @ replace_loop r f (rev (take (length s - length rest') s) @ pre)
             (drop (length s - length rest') s)"
proof -
  have "rsearch r pre s = Some \<lparr>m_index = length pre,
      m_whole = take (length s - length rest') s, m_groups = cs\<rparr>"
    by (subst rsearch.simps) (simp add: assms)
  then show ?thesis
    using assms(2) by (subst replace_loop.simps) (simp add: Let_def)
qed

lemma startsWith_length: "startsWith u p \<Longrightarrow> length p \<le> length u"
  by (induction u p rule: startsWith.induct) auto

lemma startsWith_append: "startsWith (p @ u) p"
  by (induction p) auto

definition REPL :: string where
  "REPL = ''-->'' @ [newline] @ ''<!-- ''"

lemma occurrence_rest:
  assumes "startsOccurrence s"
  shows "\<exists>j. 0 < j \<and> j \<le> length s \<and> drop 4 (dropWhile is_space (drop 3 s)) = drop j s"
proof -
  let ?t = "drop 3 s"
  let ?j = "3 + length (takeWhile is_space ?t) + 4"
  have a: "dropWhile is_space ?t = drop (length (takeWhile is_space ?t)) ?t"
    by (simp add: dropWhile_eq_drop)
  have "4 \<le> length (dropWhile is_space ?t)"
    using assms startsWith_length[of "dropWhile is_space ?t" "''<!--''"]
    by (simp add: startsOccurrence_def)
  then have "?j \<le> length s"
    unfolding a by simp
  moreover have "drop 4 (dropWhile is_space ?t) = drop ?j s"
    unfolding a by (simp add: add.commute add.left_commute)
  ultimately show ?thesis by (intro exI[of _ ?j]) simp
qed

lemma pc_step_hit:
  assumes "startsOccurrence s"
  shows "\<exists>pre'. replace_loop rx_consecutive (\<lambda>m. REPL) pre s
       = REPL @ replace_loop rx_consecutive (\<lambda>m. REPL) pre'
                  (drop 4 (dropWhile is_space (drop 3 s)))"
proof -
  from occurrence_rest[OF assms] obtain j where
    j: "0 < j" "j \<le> length s" "drop 4 (dropWhile is_space (drop 3 s)) = drop j s" by blast
  from j(3) have "length (drop 4 (dropWhile is_space (drop 3 s))) = length (drop j s)"
    by simp
  with j(1,2) have le: "length (drop 4 (dropWhile is_space (drop 3 s))) = length s - j"
    by simp
  with j(1,2) have lt: "length (drop 4 (dropWhile is_space (drop 3 s))) < length s"
    by simp
  have "length s - (length s - j) = j" using j(2) by simp
  then have dd: "drop (length s - length (drop 4 (dropWhile is_space (drop 3 s)))) s
           = drop 4 (dropWhile is_space (drop 3 s))"
    unfolding le using j(3) by simp
  from replace_loop_hit[OF _ lt, of rx_consecutive pre _ _ "[]" "\<lambda>m. REPL"]
    rmatch_consecutive[of pre s] assms
  show ?thesis unfolding dd by (simp del: rev.simps) blast
qed

lemma pc_step_skip:
  assumes "\<not> startsOccurrence (c # s)"
  shows "replace_loop rx_consecutive f pre (c # s) = c # replace_loop rx_consecutive f (c # pre) s"
  using replace_loop_skip[of rx_consecutive pre c s f] rmatch_consecutive[of pre "c # s"] assms
  by simp

lemma pc_nil: "replace_loop rx_consecutive f pre [] = []"
proof -
  have "rsearch rx_consecutive pre [] = None"
    by (subst rsearch.simps) (simp add: rmatch_consecutive startsOccurrence_def)
  then show ?thesis by (subst replace_loop.simps) simp
qed

lemma pc_indep:
  "replace_loop rx_consecutive (\<lambda>m. REPL) pre s = replace_loop rx_consecutive (\<lambda>m. REPL) [] s"
proof (induction s arbitrary: pre rule: length_induct)
  case (1 s)
  have ih: "replace_loop rx_consecutive (\<lambda>m. REPL) p t
          = replace_loop rx_consecutive (\<lambda>m. REPL) [] t" if "length t < length s" for p t
    using 1 that by blast
  show ?case
  proof (cases "startsOccurrence s")
    case True
    let ?r = "drop 4 (dropWhile is_space (drop 3 s))"
    from occurrence_rest[OF True] obtain j where
      j: "0 < j" "j \<le> length s" "?r = drop j s" by blast
    from j(3) have "length ?r = length (drop j s)" by simp
    with j(1,2) have lt: "length ?r < length s" by simp
    from pc_step_hit[OF True, of pre] obtain p1 where
      a: "replace_loop rx_consecutive (\<lambda>m. REPL) pre s
          = REPL @ replace_loop rx_consecutive (\<lambda>m. REPL) p1 ?r" by blast
    from pc_step_hit[OF True, of "[]"] obtain p2 where
      b: "replace_loop rx_consecutive (\<lambda>m. REPL) [] s
          = REPL @ replace_loop rx_consecutive (\<lambda>m. REPL) p2 ?r" by blast
    show ?thesis
      unfolding a b ih[OF lt, of p1] ih[OF lt, of p2] ..
  next
    case False
    show ?thesis
    proof (cases s)
      case Nil
      show ?thesis unfolding Nil pc_nil ..
    next
      case (Cons c t)
      have lt: "length t < length s" using Cons by simp
      have ns: "\<not> startsOccurrence (c # t)" using False Cons by simp
      show ?thesis
        unfolding Cons pc_step_skip[OF ns] ih[OF lt, of "c # pre"] ih[OF lt, of "[c]"] ..
    qed
  qed
qed

lemma pc_eq: "preprocessConsecutiveHtmlComments s = replace_loop rx_consecutive (\<lambda>m. REPL) [] s"
  by (simp add: preprocessConsecutiveHtmlComments_def replaceAll_def REPL_def)

lemma pc_occurrence:
  assumes "list_all is_space w"
  shows "preprocessConsecutiveHtmlComments (''-->'' @ w @ ''<!--'' @ b)
       = ''-->'' @ [newline] @ ''<!-- '' @ preprocessConsecutiveHtmlComments b"
proof -
  let ?s = "''-->'' @ w @ ''<!--'' @ b"
  have ns: "\<not> is_space CHR ''<''" by (simp add: is_space_def)
  have w: "\<forall>x \<in> set w. is_space x" using assms by (simp add: list_all_iff)
  have dw: "dropWhile is_space (drop 3 ?s) = ''<!--'' @ b"
    using w ns by (simp add: dropWhile_append2)
  then have occ: "startsOccurrence ?s"
    by (simp add: startsOccurrence_def)
  from pc_step_hit[OF occ, of "[]"] obtain p1 where
    "replace_loop rx_consecutive (\<lambda>m. REPL) [] ?s
       = REPL @ replace_loop rx_consecutive (\<lambda>m. REPL) p1 b"
    unfolding dw by auto
  then show ?thesis
    unfolding pc_eq pc_indep[of p1 b] by (simp add: REPL_def)
qed

lemma pc_other:
  assumes "\<not> startsOccurrence (c # s)"
  shows "preprocessConsecutiveHtmlComments (c # s) = c # preprocessConsecutiveHtmlComments s"
  unfolding pc_eq pc_step_skip[OF assms, of "\<lambda>m. REPL" "[]"] pc_indep[of "[c]" s] ..

text \<open>
  Claim C10. Before parsing, \<^verbatim>\<open>convert\<close> rewrites the raw input from left to right:
  where the text starts with \<^verbatim>\<open>-->\<close>, optional white space and \<^verbatim>\<open><!--\<close>, this
  becomes \<^verbatim>\<open>-->\<close>, a newline and \<^verbatim>\<open><!-- \<close>, and the rewriting goes on after it;
  any other character is kept and the rewriting goes on after it. The parser is called on
  the rewritten text only. The rewriting does not look at fences: the code of a fenced code
  block is rewritten too, and two inputs whose code blocks differ (\<^verbatim>\<open>--><!--\<close> and
  \<^verbatim>\<open>--> <!--\<close>) are converted to the same document whenever the parser and the
  tree builder return one for the rewritten text, so the document cannot hold the code of
  both as it was written.
\<close>

theorem consecutive_comments_rewritten:
  "(\<forall>w b. list_all is_space w \<longrightarrow>
       preprocessConsecutiveHtmlComments (''-->'' @ w @ ''<!--'' @ b)
         = ''-->'' @ [newline] @ ''<!-- '' @ preprocessConsecutiveHtmlComments b)
   \<and> (\<forall>c s. \<not> startsOccurrence (c # s) \<longrightarrow>
       preprocessConsecutiveHtmlComments (c # s) = c # preprocessConsecutiveHtmlComments s)
   \<and> preprocessConsecutiveHtmlComments [] = []
   \<and> (\<forall>opts parse parse' toAdf md.
         parse (preprocessNestedAdfBlocks (preprocessConsecutiveHtmlComments md))
           = parse' (preprocessNestedAdfBlocks (preprocessConsecutiveHtmlComments md)) \<longrightarrow>
         convert opts parse toAdf (JString md) = convert opts parse' toAdf (JString md))
   \<and> preprocessConsecutiveHtmlComments fencedTight
         = ''```'' @ [newline] @ ''-->'' @ [newline] @ ''<!-- '' @ [newline] @ ''```''
   \<and> fencedTight \<noteq> fencedSpaced
   \<and> (\<forall>opts parse toAdf tree doc.
         parse (preprocessNestedAdfBlocks (preprocessConsecutiveHtmlComments fencedTight))
           = Inr tree \<and> toAdf tree = Inr doc \<longrightarrow>
         convert opts parse toAdf (JString fencedTight) = Inr doc
         \<and> convert opts parse toAdf (JString fencedSpaced) = Inr doc)"
proof -
  have t: "preprocessConsecutiveHtmlComments fencedTight
         = ''```'' @ [newline] @ ''-->'' @ [newline] @ ''<!-- '' @ [newline] @ ''```''"
    by code_simp
  have s: "preprocessConsecutiveHtmlComments fencedSpaced
         = ''```'' @ [newline] @ ''-->'' @ [newline] @ ''<!-- '' @ [newline] @ ''```''"
    by code_simp
  have ne: "fencedTight \<noteq> fencedSpaced" "fencedTight \<noteq> []" "fencedSpaced \<noteq> []"
    "length (trim fencedTight) \<noteq> 0" "length (trim fencedSpaced) \<noteq> 0"
    by code_simp+
  have same: "convert opts parse toAdf (JString fencedTight) = Inr doc
      \<and> convert opts parse toAdf (JString fencedSpaced) = Inr doc"
    if "parse (preprocessNestedAdfBlocks (preprocessConsecutiveHtmlComments fencedTight))
           = Inr tree \<and> toAdf tree = Inr doc"
    for opts parse toAdf tree doc
    unfolding convert_def using ne that by (simp add: t s)
  have dep: "convert opts parse toAdf (JString md) = convert opts parse' toAdf (JString md)"
    if "parse (preprocessNestedAdfBlocks (preprocessConsecutiveHtmlComments md))
      = parse' (preprocessNestedAdfBlocks (preprocessConsecutiveHtmlComments md))"
    for opts parse parse' toAdf md
    unfolding convert_def using that by simp
  have nil: "preprocessConsecutiveHtmlComments [] = []"
    unfolding pc_eq pc_nil ..
  show ?thesis
    using pc_occurrence pc_other nil dep t ne(1) same by blast
qed

theorem consecutive_comments_rewritten_witness:
  "list_all is_space ''  ''
   \<and> preprocessConsecutiveHtmlComments (''-->'' @ ''  '' @ ''<!--'' @ ''x'')
       = ''-->'' @ [newline] @ ''<!-- '' @ ''x''
   \<and> \<not> startsOccurrence ''ab''
   \<and> preprocessConsecutiveHtmlComments ''ab'' = ''ab''
   \<and> convert \<lparr>strict = False, preserveUnknownNodes = True\<rparr> sampleParse sampleBuild
         (JString fencedTight)
       = convert \<lparr>strict = False, preserveUnknownNodes = True\<rparr> sampleParse sampleBuild
         (JString fencedSpaced)"
proof -
  have h1: "list_all is_space ''  ''" by code_simp
  have h2: "\<not> startsOccurrence ''ab''" "\<not> startsOccurrence ''b''" "\<not> startsOccurrence ''x''"
    by code_simp+
  have e1: "preprocessConsecutiveHtmlComments (''-->'' @ ''  '' @ ''<!--'' @ ''x'')
       = ''-->'' @ [newline] @ ''<!-- '' @ preprocessConsecutiveHtmlComments ''x''"
    using consecutive_comments_rewritten h1 by blast
  have e2: "preprocessConsecutiveHtmlComments ''x'' = ''x''"
    using consecutive_comments_rewritten h2(3) by (metis)
  have e3: "preprocessConsecutiveHtmlComments ''ab'' = ''ab''"
    using consecutive_comments_rewritten h2(1,2) by (metis)
  have "\<exists>tree doc.
      sampleParse (preprocessNestedAdfBlocks (preprocessConsecutiveHtmlComments fencedTight))
        = Inr tree \<and> sampleBuild tree = Inr doc"
    by (simp add: sampleParse_def sampleBuild_def)
  then have e4: "convert \<lparr>strict = False, preserveUnknownNodes = True\<rparr> sampleParse sampleBuild
         (JString fencedTight)
       = convert \<lparr>strict = False, preserveUnknownNodes = True\<rparr> sampleParse sampleBuild
         (JString fencedSpaced)"
    using consecutive_comments_rewritten by metis
  show ?thesis
    using h1 h2(1) e1 e2 e3 e4 by simp
qed

section \<open>The leftmost token comes first\<close>

lemma earliestMatch_None:
  "earliestMatch ps content best = None \<longleftrightarrow>
     best = None \<and> (\<forall>(r, p) \<in> set ps. rx_exec r content = None)"
proof (induction ps arbitrary: best)
  case Nil
  then show ?case by simp
next
  case (Cons a ps)
  obtain r q where a: "a = (r, q)" by (cases a)
  show ?case
  proof (cases "rx_exec r content")
    case None
    then show ?thesis using Cons.IH[of best] a by simp
  next
    case (Some m')
    show ?thesis
    proof (cases best)
      case None
      then show ?thesis using Cons.IH[of "Some (m', q)"] a Some by simp
    next
      case (Some eq)
      obtain e p' where eq: "eq = (e, p')" by (cases eq)
      show ?thesis
        using Cons.IH[of "Some (m', q)"] Cons.IH[of best] a Some \<open>rx_exec r content = Some m'\<close> eq
        by (cases "m_index m' < m_index e") simp_all
    qed
  qed
qed

lemma earliestMatch_min:
  "earliestMatch ps content best = Some (m, p) \<Longrightarrow>
     (\<forall>(r, q) \<in> set ps. \<forall>m'. rx_exec r content = Some m' \<longrightarrow> m_index m \<le> m_index m')
     \<and> (\<forall>e q. best = Some (e, q) \<longrightarrow> m_index m \<le> m_index e)"
proof (induction ps arbitrary: best)
  case Nil
  then show ?case by auto
next
  case (Cons a ps)
  obtain r q where a: "a = (r, q)" by (cases a)
  let ?best' = "(case rx_exec r content of
          Some m' \<Rightarrow>
            (case best of
               None \<Rightarrow> Some (m', q)
             | Some (e, p') \<Rightarrow> if m_index m' < m_index e then Some (m', q) else best)
        | None \<Rightarrow> best)"
  from Cons.prems a have e: "earliestMatch ps content ?best' = Some (m, p)" by simp
  note ih = Cons.IH[OF e]
  have b1: "\<forall>e q. best = Some (e, q) \<longrightarrow> m_index m \<le> m_index e"
    using ih by (auto split: option.splits if_splits)
  have b2: "\<forall>m'. rx_exec r content = Some m' \<longrightarrow> m_index m \<le> m_index m'"
    using ih by (auto split: option.splits if_splits)
  show ?case using ih a b1 b2 by auto
qed

lemma findNext_None:
  "findNextSocialElementIn ps content = None \<longleftrightarrow> (\<forall>(r, p) \<in> set ps. rx_exec r content = None)"
proof -
  have "findNextSocialElementIn ps content = None \<longleftrightarrow> earliestMatch ps content None = None"
    by (auto simp: findNextSocialElementIn_def split: option.splits)
  then show ?thesis by (simp add: earliestMatch_None)
qed

lemma findNext_Some:
  assumes "findNextSocialElementIn ps content = Some sm"
  shows "(\<exists>r p m. (r, p) \<in> set ps \<and> rx_exec r content = Some m \<and> sm_index sm = m_index m
            \<and> sm_node sm = p m \<and> beforeText sm = take (m_index m) content
            \<and> afterText sm = drop (m_index m + length (m_whole m)) content)
       \<and> (\<forall>(r, p) \<in> set ps. \<forall>m. rx_exec r content = Some m \<longrightarrow> sm_index sm \<le> m_index m)"
proof -
  from assms obtain m p where e: "earliestMatch ps content None = Some (m, p)"
    and sm: "sm = \<lparr>sm_index = m_index m, beforeText = take (m_index m) content,
                sm_node = p m, afterText = drop (m_index m + length (m_whole m)) content\<rparr>"
    by (auto simp: findNextSocialElementIn_def split: option.splits)
  from earliestMatch_from[OF e] obtain r where r: "(r, p) \<in> set ps" "rx_exec r content = Some m"
    by auto
  from earliestMatch_min[OF e] have
    "\<forall>(r, q) \<in> set ps. \<forall>m'. rx_exec r content = Some m' \<longrightarrow> m_index m \<le> m_index m'" by blast
  with r sm show ?thesis by auto
qed

lemma findNext_order:
  assumes "set ps' = set ps"
  shows "map_option sm_index (findNextSocialElementIn ps' content)
       = map_option sm_index (findNextSocialElementIn ps content)"
proof (cases "findNextSocialElementIn ps content")
  case None
  then have "findNextSocialElementIn ps' content = None"
    using assms by (simp add: findNext_None)
  with None show ?thesis by simp
next
  case (Some sm)
  then have "findNextSocialElementIn ps' content \<noteq> None"
    using assms findNext_None[of ps content] findNext_None[of ps' content] by auto
  then obtain sm' where s': "findNextSocialElementIn ps' content = Some sm'" by auto
  from findNext_Some[OF Some] findNext_Some[OF s'] assms
  have "sm_index sm \<le> sm_index sm'" "sm_index sm' \<le> sm_index sm"
    by (metis (mono_tags, lifting) case_prodD)+
  with Some s' show ?thesis by simp
qed

text \<open>
  Claim C3. Among the matches of the token patterns in a text, the scanner takes one that
  starts at the smallest offset, whatever the order in which the patterns are tried: it
  finds nothing exactly when no pattern matches; what it finds is the match of one of the
  patterns, and no pattern has a match that starts before it; and trying the same patterns
  in another order gives the same offset. The text
  \<^verbatim>\<open>Hey {user:alice}, due {date:2023-12-25}\<close> is scanned into a text, the mention of alice,
  a text and the date with the timestamp 1703462400000, in this order.
\<close>

theorem leftmost_token_first:
  "(findNextSocialElementIn ps content = None
      \<longleftrightarrow> (\<forall>(r, p) \<in> set ps. rx_exec r content = None))
   \<and> (\<forall>sm. findNextSocialElementIn ps content = Some sm \<longrightarrow>
         (\<exists>r p m. (r, p) \<in> set ps \<and> rx_exec r content = Some m \<and> sm_index sm = m_index m
            \<and> sm_node sm = p m \<and> beforeText sm = take (m_index m) content
            \<and> afterText sm = drop (m_index m + length (m_whole m)) content)
       \<and> (\<forall>(r, p) \<in> set ps. \<forall>m. rx_exec r content = Some m \<longrightarrow> sm_index sm \<le> m_index m))
   \<and> (\<forall>ps'. set ps' = set ps \<longrightarrow>
         map_option sm_index (findNextSocialElementIn ps' content)
           = map_option sm_index (findNextSocialElementIn ps content))
   \<and> parseInlineContentWithSocialElements emoji ''Hey {user:alice}, due {date:2023-12-25}''
       = [textNode ''Hey '' None,
          node ''mention'' [(''id'', JStr ''alice''), (''text'', JStr ''@alice''),
                            (''userType'', JStr ''DEFAULT'')],
          textNode '', due '' None,
          node ''date'' [(''timestamp'', JStr ''1703462400000'')]]"
proof -
  have ex: "parseInlineContentWithSocialElements emoji ''Hey {user:alice}, due {date:2023-12-25}''
       = [textNode ''Hey '' None,
          node ''mention'' [(''id'', JStr ''alice''), (''text'', JStr ''@alice''),
                            (''userType'', JStr ''DEFAULT'')],
          textNode '', due '' None,
          node ''date'' [(''timestamp'', JStr ''1703462400000'')]]"
    by code_simp
  show ?thesis
    using findNext_None[of ps content] findNext_Some[of ps content] findNext_order[of _ ps content] ex
    by blast
qed

theorem leftmost_token_first_witness:
  "map_option sm_index
      (findNextSocialElementIn (socialPatterns noEmoji) ''Hey {user:alice}, due {date:2023-12-25}'')
     = Some 4
   \<and> map_option m_index (rx_exec rx_dateBraces ''Hey {user:alice}, due {date:2023-12-25}'')
     = Some 22
   \<and> map_option sm_index
      (findNextSocialElementIn (rev (socialPatterns noEmoji))
         ''Hey {user:alice}, due {date:2023-12-25}'')
     = Some 4"
proof -
  have a: "map_option sm_index
      (findNextSocialElementIn (socialPatterns noEmoji) ''Hey {user:alice}, due {date:2023-12-25}'')
     = Some 4"
    by code_simp
  have b: "map_option m_index (rx_exec rx_dateBraces ''Hey {user:alice}, due {date:2023-12-25}'')
     = Some 22"
    by code_simp
  have "set (rev (socialPatterns noEmoji)) = set (socialPatterns noEmoji)"
    by simp
  then have "map_option sm_index
      (findNextSocialElementIn (rev (socialPatterns noEmoji))
         ''Hey {user:alice}, due {date:2023-12-25}'')
     = map_option sm_index
      (findNextSocialElementIn (socialPatterns noEmoji) ''Hey {user:alice}, due {date:2023-12-25}'')"
    using leftmost_token_first
      [of "socialPatterns noEmoji" "''Hey {user:alice}, due {date:2023-12-25}''" noEmoji]
    by blast
  with a b show ?thesis by simp
qed

section \<open>A character the scanner drops\<close>

text \<open>
  Claim C2 says that the plain segments and the tokens of a scan account for every
  character of the text. The pattern for a bare date takes the character before the date
  into its match, and \<^verbatim>\<open>findNextSocialElement\<close> cuts the text before the whole match and
  after it: in \<^verbatim>\<open>due 2023-12-25\<close> the match starts at offset 3, the blank; the text before
  it is \<^verbatim>\<open>due\<close>, the token is the date of \<^verbatim>\<open>2023-12-25\<close>, nothing is left after it, and
  the blank is in neither; the paragraph of the document has the same two nodes.
\<close>

theorem scanner_drops_boundary_character:
  "findNextSocialElement emoji ''due 2023-12-25''
     = Some \<lparr>sm_index = 3, beforeText = ''due'',
             sm_node = node ''date'' [(''timestamp'', JStr ''1703462400000'')],
             afterText = []\<rparr>
   \<and> parseInlineContentWithSocialElements emoji ''due 2023-12-25''
     = [textNode ''due'' None, node ''date'' [(''timestamp'', JStr ''1703462400000'')]]
   \<and> convertMdastToAdfSync e parse (Suc (Suc (Suc fuel)))
       (Mdast ''root'' None
          [Mdast ''paragraph'' None [Mdast ''text'' (Some ''due 2023-12-25'') [] [] []] [] []]
          [] [])
     = Some (Inr \<lparr>doc_version = 1, doc_type = ''doc'', doc_content =
         [Adf ''paragraph'' None
            (Some [textNode ''due'' None,
                   node ''date'' [(''timestamp'', JStr ''1703462400000'')]])
            None None]\<rparr>)"
proof (intro conjI)
  show "findNextSocialElement emoji ''due 2023-12-25''
     = Some \<lparr>sm_index = 3, beforeText = ''due'',
             sm_node = node ''date'' [(''timestamp'', JStr ''1703462400000'')],
             afterText = []\<rparr>"
    by code_simp
  show "parseInlineContentWithSocialElements emoji ''due 2023-12-25''
     = [textNode ''due'' None, node ''date'' [(''timestamp'', JStr ''1703462400000'')]]"
    by code_simp
  show "convertMdastToAdfSync e parse (Suc (Suc (Suc fuel)))
       (Mdast ''root'' None
          [Mdast ''paragraph'' None [Mdast ''text'' (Some ''due 2023-12-25'') [] [] []] [] []]
          [] [])
     = Some (Inr \<lparr>doc_version = 1, doc_type = ''doc'', doc_content =
         [Adf ''paragraph'' None
            (Some [textNode ''due'' None,
                   node ''date'' [(''timestamp'', JStr ''1703462400000'')]])
            None None]\<rparr>)"
    by code_simp
qed

section \<open>Marks around inline code\<close>

text \<open>
  Claim C1 says that a text leaf with the mark \<^verbatim>\<open>code\<close> has no other mark.
  \<^verbatim>\<open>wrapWithMark\<close> and \<^verbatim>\<open>convertFormattingToken\<close> push the outer mark onto the marks a
  leaf has already, whatever they are: inline code inside strong gives a leaf with the marks
  \<^verbatim>\<open>code\<close> and \<^verbatim>\<open>strong\<close>, also in the document that the stages after parsing build
  from the paragraph.
\<close>

theorem code_mark_keeps_outer_mark:
  "convertMdastInlineNodes emoji opts [strongCode]
     = [textNode ''code'' (Some [Mark ''code'' None, Mark ''strong'' None])]
   \<and> wrapWithMark emoji opts [Mdast ''inlineCode'' (Some ''code'') [] [] []] ''strong'' None
     = [textNode ''code'' (Some [Mark ''code'' None, Mark ''strong'' None])]
   \<and> convertFormattingToken emoji strongCodeToken
     = [textNode ''code'' (Some [Mark ''code'' None, Mark ''strong'' None])]
   \<and> convertMdastToAdfSync e parse (Suc (Suc (Suc (Suc fuel))))
       (Mdast ''root'' None [Mdast ''paragraph'' None [strongCode] [] []] [] [])
     = Some (Inr \<lparr>doc_version = 1, doc_type = ''doc'', doc_content =
         [Adf ''paragraph'' None
            (Some [textNode ''code'' (Some [Mark ''code'' None, Mark ''strong'' None])])
            None None]\<rparr>)"
proof (intro conjI)
  show "convertMdastInlineNodes emoji opts [strongCode]
     = [textNode ''code'' (Some [Mark ''code'' None, Mark ''strong'' None])]"
    by (simp add: convertMdastInlineNodes_def wrapWithMark_def strongCode_def pushMark_def
        textNode_def markableNodeTypes_def)
  show "wrapWithMark emoji opts [Mdast ''inlineCode'' (Some ''code'') [] [] []] ''strong'' None
     = [textNode ''code'' (Some [Mark ''code'' None, Mark ''strong'' None])]"
    by (simp add: convertMdastInlineNodes_def wrapWithMark_def pushMark_def
        textNode_def markableNodeTypes_def)
  show "convertFormattingToken emoji strongCodeToken
     = [textNode ''code'' (Some [Mark ''code'' None, Mark ''strong'' None])]"
    by (simp add: textNode_def convertFormattingToken_def
        convertInlineTokensToNodes_def strongCodeToken_def pushTextMark_def getADFMarkType_def)
  show "convertMdastToAdfSync e parse (Suc (Suc (Suc (Suc fuel))))
       (Mdast ''root'' None [Mdast ''paragraph'' None [strongCode] [] []] [] [])
     = Some (Inr \<lparr>doc_version = 1, doc_type = ''doc'', doc_content =
         [Adf ''paragraph'' None
            (Some [textNode ''code'' (Some [Mark ''code'' None, Mark ''strong'' None])])
            None None]\<rparr>)"
    by code_simp
qed

section \<open>Round trip of an annotated heading\<close>

text \<open>
  Claim C6. The document with the heading \<^verbatim>\<open>{level: 1, id: "x", textAlign: "center"}\<close>
  becomes the tree of an annotation comment and a heading of depth 1: the comment is
  \<^verbatim>\<open><!-- adf:heading id="x" textAlign="center" -->\<close>, without the level. The markup of this
  tree, the comment, a blank line and the heading line, is written and read back by the
  markdown library, which is outside the sources; the two rewritings of the markup before
  it is parsed leave it as it is. From the tree, the stages after parsing give the document
  back: the level from the depth of the heading, \<^verbatim>\<open>id\<close> and \<^verbatim>\<open>textAlign\<close> from the
  comment. So does \<^verbatim>\<open>convert\<close> on the markup, whenever the processor reads the markup as
  this tree.
\<close>

theorem annotation_round_trip:
  "buildMdastFromADF headingDoc = headingTree
   \<and> preprocessNestedAdfBlocks (preprocessConsecutiveHtmlComments headingMarkup) = headingMarkup
   \<and> convertMdastToAdfSync e parse (Suc (Suc fuel)) headingTree = Some (Inr headingDoc)
   \<and> (parse headingMarkup = Inr headingTree \<and> toAdf headingTree = Inr headingDoc
        \<longrightarrow> convert opts parse toAdf (JString headingMarkup) = Inr headingDoc)
   \<and> map aattrs (doc_content headingDoc)
     = [Some [(''level'', JNum (Fin 1)), (''id'', JStr ''x''), (''textAlign'', JStr ''center'')]]"
proof (intro conjI impI)
  show "buildMdastFromADF headingDoc = headingTree"
    by code_simp
  show pre: "preprocessNestedAdfBlocks (preprocessConsecutiveHtmlComments headingMarkup) = headingMarkup"
    by code_simp
  show "convertMdastToAdfSync e parse (Suc (Suc fuel)) headingTree = Some (Inr headingDoc)"
    by code_simp
  show "map aattrs (doc_content headingDoc)
     = [Some [(''level'', JNum (Fin 1)), (''id'', JStr ''x''), (''textAlign'', JStr ''center'')]]"
    by (simp add: headingDoc_def)
  assume a: "parse headingMarkup = Inr headingTree \<and> toAdf headingTree = Inr headingDoc"
  have ne: "headingMarkup \<noteq> []" "length (trim headingMarkup) \<noteq> 0"
    by code_simp+
  show "convert opts parse toAdf (JString headingMarkup) = Inr headingDoc"
    using a ne by (simp add: convert_def pre)
qed

theorem annotation_round_trip_witness:
  "headingParse headingMarkup = Inr headingTree
   \<and> headingStages headingTree = Inr headingDoc
   \<and> convert \<lparr>strict = False, preserveUnknownNodes = True\<rparr> headingParse headingStages
         (JString headingMarkup) = Inr headingDoc"
proof -
  have 1: "headingParse headingMarkup = Inr headingTree"
    by (simp add: headingParse_def)
  have 2: "headingStages headingTree = Inr headingDoc"
    by code_simp
  from annotation_round_trip[of e headingParse fuel headingStages "\<lparr>strict = False, preserveUnknownNodes = True\<rparr>"] 1 2
  show ?thesis by simp
qed

section \<open>The fence pass settles the tree\<close>

text \<open>Facts about \<^const>\<open>those\<close> and about the fuel of \<^const>\<open>processNode\<close>.\<close>

lemma those_map_Some:
  "those (map f xs) = Some ys \<Longrightarrow> ys = map (\<lambda>x. the (f x)) xs \<and> (\<forall>x\<in>set xs. f x \<noteq> None)"
  by (induction xs arbitrary: ys) (auto split: option.splits)

lemma those_map_all:
  "(\<forall>x\<in>set xs. f x = Some (g x)) \<Longrightarrow> those (map f xs) = Some (map g xs)"
  by (induction xs) auto

lemma those_map_defined:
  "(\<forall>x\<in>set xs. f x \<noteq> None) \<Longrightarrow> those (map f xs) \<noteq> None"
  by (induction xs) (auto split: option.splits)

lemma processNode_mono:
  "processNode jp parse f n = Some r \<Longrightarrow> processNode jp parse (f + k) n = Some r"
proof (induction f arbitrary: n r)
  case 0
  then show ?case by simp
next
  case (Suc f)
  obtain n1 c1 where s1: "codeStep jp parse n = (n1, c1)" by force
  obtain n2 c2 where s2: "textStep jp parse n1 = (n2, c2)" by force
  from Suc.prems s1 s2 obtain rs
    where rs: "those (map (processNode jp parse f) (mchildren n2)) = Some rs"
    by (auto split: option.splits)
  have eq: "map (processNode jp parse (f + k)) (mchildren n2)
        = map (processNode jp parse f) (mchildren n2)"
  proof (rule map_cong[OF refl])
    fix c assume "c \<in> set (mchildren n2)"
    with those_map_Some[OF rs] obtain x where "processNode jp parse f c = Some x" by auto
    with Suc.IH show "processNode jp parse (f + k) c = processNode jp parse f c" by simp
  qed
  from Suc.prems s1 s2 show ?case by (simp add: eq)
qed

lemma fencePass_mono:
  assumes "fencePass jp parse f tree = Some r"
  shows "fencePass jp parse (f + k) tree = Some r"
proof -
  from assms obtain rs
    where rs: "those (map (processNode jp parse f) (mchildren tree)) = Some rs"
    by (auto simp: fencePass_def split: option.splits)
  have eq: "map (processNode jp parse (f + k)) (mchildren tree)
        = map (processNode jp parse f) (mchildren tree)"
  proof (rule map_cong[OF refl])
    fix c assume "c \<in> set (mchildren tree)"
    with those_map_Some[OF rs] obtain x where "processNode jp parse f c = Some x" by auto
    then show "processNode jp parse (f + k) c = processNode jp parse f c"
      by (simp add: processNode_mono)
  qed
  from assms show ?thesis by (simp add: fencePass_def eq)
qed

lemma codeStep_not_fence: "\<not> fenceCode m \<Longrightarrow> codeStep jp parse m = (m, False)"
  by (auto simp: codeStep_def fenceCode_def split: option.splits)

lemma textStep_not_text: "mtype m \<noteq> ''text'' \<Longrightarrow> textStep jp parse m = (m, False)"
  by (simp add: textStep_def)

lemma fenceCode_indep:
  "fenceCode (Mdast (mtype n) v cs (mprops n) me) = fenceCode n"
  by (simp add: fenceCode_def prop_str_def)

lemma codeStep_cases:
  assumes "codeStep jp parse n = (n1, c1)"
  shows "(n1 = n \<and> \<not> c1 \<and> \<not> fenceCode n)
       \<or> (mtype n1 = ''adfFence'' \<and> c1 \<and> fenceCode n
          \<and> (mchildren n1 = mchildren n
              \<or> (\<exists>t. parse (valueOf n) = Inr t \<and> mchildren n1 = mchildren t)))"
  using assms
  by (auto simp: codeStep_def fenceCode_def adfBlockTypes_def Let_def
       split: option.splits sum.splits if_splits)

lemma textStep_cases:
  assumes "textStep jp parse n = (n2, c2)"
  shows "(n2 = n \<and> \<not> c2)
       \<or> (mtype n2 = ''adfFence'' \<and> c2 \<and> mtype n = ''text'' \<and> valueOf n \<noteq> []
          \<and> (\<exists>m t. rx_exec adfFencePattern (trim (valueOf n)) = Some m
                   \<and> parse (grp_str m 3) = Inr t \<and> mchildren n2 = mchildren t))"
  using assms
  by (auto simp: textStep_def split: option.splits sum.splits if_splits)

lemma textStep_indep:
  assumes "textStep jp parse n = (n, False)"
  shows "textStep jp parse (Mdast (mtype n) (mvalue n) cs (mprops n) (mmeta n))
         = (Mdast (mtype n) (mvalue n) cs (mprops n) (mmeta n), False)"
  using assms
  by (auto simp: textStep_def valueOf_def split: option.splits sum.splits if_splits)

lemma steps_quiet:
  assumes s1: "codeStep jp parse n = (n1, c1)" and s2: "textStep jp parse n1 = (n2, c2)"
  shows "quiet jp parse (Mdast (mtype n2) (mvalue n2) cs (mprops n2) (mmeta n2))"
proof -
  let ?m = "Mdast (mtype n2) (mvalue n2) cs (mprops n2) (mmeta n2)"
  from textStep_cases[OF s2] show ?thesis
  proof
    assume a: "n2 = n1 \<and> \<not> c2"
    from codeStep_cases[OF s1] show ?thesis
    proof
      assume b: "n1 = n \<and> \<not> c1 \<and> \<not> fenceCode n"
      with a have "\<not> fenceCode ?m" by (simp add: fenceCode_indep)
      moreover from a b s2 have "textStep jp parse n2 = (n2, False)" by simp
      ultimately show ?thesis
        by (simp add: quiet_def codeStep_not_fence textStep_indep)
    next
      assume "mtype n1 = ''adfFence'' \<and> c1 \<and> fenceCode n
          \<and> (mchildren n1 = mchildren n
              \<or> (\<exists>t. parse (valueOf n) = Inr t \<and> mchildren n1 = mchildren t))"
      with a have "mtype ?m = ''adfFence''" by simp
      then have "\<not> fenceCode ?m" "mtype ?m \<noteq> ''text''" by (simp_all add: fenceCode_def)
      then show ?thesis
        unfolding quiet_def by (simp only: codeStep_not_fence textStep_not_text simp_thms)
    qed
  next
    assume "mtype n2 = ''adfFence'' \<and> c2 \<and> mtype n1 = ''text'' \<and> valueOf n1 \<noteq> []
          \<and> (\<exists>m t. rx_exec adfFencePattern (trim (valueOf n1)) = Some m
                   \<and> parse (grp_str m 3) = Inr t \<and> mchildren n2 = mchildren t)"
    then have "mtype ?m = ''adfFence''" by simp
    then have "\<not> fenceCode ?m" "mtype ?m \<noteq> ''text''" by (simp_all add: fenceCode_def)
    then show ?thesis
      unfolding quiet_def by (simp only: codeStep_not_fence textStep_not_text simp_thms)
  qed
qed

lemma fold_max_le: "(\<forall>x\<in>set xs. x \<le> b) \<Longrightarrow> a \<le> b \<Longrightarrow> fold max xs a \<le> (b::nat)"
  by (induction xs arbitrary: a) auto

lemma child_descendant: "c \<in> set (mchildren n) \<Longrightarrow> c \<in> set (descendants n)"
  by (cases n) simp

lemma descendants_child:
  "c \<in> set (mchildren n) \<Longrightarrow> x \<in> set (descendants c) \<Longrightarrow> x \<in> set (descendants n)"
  by (cases n) auto

lemma processNode_result:
  "processNode jp parse f n = Some (n', c) \<Longrightarrow>
     quiet jp parse n' \<and> list_all (quiet jp parse) (descendants n') \<and> hgt n' \<le> f"
proof (induction f arbitrary: n n' c)
  case 0
  then show ?case by simp
next
  case (Suc f)
  obtain n1 c1 where s1: "codeStep jp parse n = (n1, c1)" by force
  obtain n2 c2 where s2: "textStep jp parse n1 = (n2, c2)" by force
  from Suc.prems s1 s2 obtain rs
    where rs: "those (map (processNode jp parse f) (mchildren n2)) = Some rs"
      and n': "n' = Mdast (mtype n2) (mvalue n2) (map fst rs) (mprops n2) (mmeta n2)"
    by (auto split: option.splits)
  have each: "quiet jp parse (fst r) \<and> list_all (quiet jp parse) (descendants (fst r))
              \<and> hgt (fst r) \<le> f" if "r \<in> set rs" for r
  proof -
    from those_map_Some[OF rs] that obtain x
      where "x \<in> set (mchildren n2)" "processNode jp parse f x = Some r"
      by auto
    then have "processNode jp parse f x = Some (fst r, snd r)" by simp
    from Suc.IH[OF this] show ?thesis .
  qed
  have q: "quiet jp parse n'" unfolding n' by (rule steps_quiet[OF s1 s2])
  have d: "list_all (quiet jp parse) (descendants n')"
    unfolding n' using each by (auto simp: list_all_iff)
  have "fold max (map hgt (map fst rs)) 0 \<le> f"
    by (rule fold_max_le) (use each in auto)
  then have h: "hgt n' \<le> Suc f" unfolding n' by simp
  from q d h show ?case by simp
qed

lemma quiet_processNode:
  "quiet jp parse m \<Longrightarrow> list_all (quiet jp parse) (descendants m) \<Longrightarrow> hgt m \<le> f
   \<Longrightarrow> processNode jp parse f m = Some (m, False)"
proof (induction f arbitrary: m)
  case 0
  with hgt_pos[of m] show ?case by simp
next
  case (Suc f)
  obtain t v cs p me where m: "m = Mdast t v cs p me" by (cases m)
  have kids: "\<forall>c\<in>set cs. processNode jp parse f c = Some (c, False)"
  proof
    fix c assume c: "c \<in> set cs"
    then have cm: "c \<in> set (mchildren m)" using m by simp
    from Suc.prems(2) c m have 1: "quiet jp parse c" by (auto simp: list_all_iff)
    from Suc.prems(2) have 2: "list_all (quiet jp parse) (descendants c)"
      using descendants_child[OF cm] by (auto simp: list_all_iff)
    from hgt_child[OF cm] Suc.prems(3) have 3: "hgt c \<le> f" by simp
    from Suc.IH[OF 1 2 3] show "processNode jp parse f c = Some (c, False)" .
  qed
  from those_map_all[of cs "processNode jp parse f" "\<lambda>c. (c, False)", OF kids]
  have th: "those (map (processNode jp parse f) cs) = Some (map (\<lambda>c. (c, False)) cs)" .
  from Suc.prems(1) have "codeStep jp parse m = (m, False)" "textStep jp parse m = (m, False)"
    by (simp_all add: quiet_def)
  then show ?case using th m by (simp add: comp_def list_ex_iff)
qed

lemma quiet_not_fenceCode: "quiet jp parse m \<Longrightarrow> \<not> fenceCode m"
  by (auto simp: quiet_def codeStep_def fenceCode_def adfBlockTypes_def Let_def
       split: option.splits sum.splits if_splits)

lemma fencePass_settles:
  assumes "fencePass jp parse f tree = Some (tree', ch)"
  shows "fencePass jp parse f tree' = Some (tree', False)
         \<and> list_all (quiet jp parse) (descendants tree')"
proof -
  from assms obtain rs
    where rs: "those (map (processNode jp parse f) (mchildren tree)) = Some rs"
      and t': "tree' = Mdast (mtype tree) (mvalue tree) (map fst rs) (mprops tree) (mmeta tree)"
    by (auto simp: fencePass_def split: option.splits)
  have each: "quiet jp parse (fst r) \<and> list_all (quiet jp parse) (descendants (fst r))
              \<and> hgt (fst r) \<le> f" if "r \<in> set rs" for r
  proof -
    from those_map_Some[OF rs] that obtain x
      where "x \<in> set (mchildren tree)" "processNode jp parse f x = Some r"
      by auto
    then have "processNode jp parse f x = Some (fst r, snd r)" by simp
    from processNode_result[OF this] show ?thesis .
  qed
  have kids: "\<forall>c\<in>set (map fst rs). processNode jp parse f c = Some (c, False)"
    using each by (auto intro: quiet_processNode)
  from those_map_all[of "map fst rs" "processNode jp parse f" "\<lambda>c. (c, False)", OF kids]
  have "those (map (processNode jp parse f) (map fst rs)) = Some (map (\<lambda>c. (c, False)) (map fst rs))" .
  then have 1: "fencePass jp parse f tree' = Some (tree', False)"
    unfolding t' by (simp add: fencePass_def comp_def list_ex_iff)
  have 2: "list_all (quiet jp parse) (descendants tree')"
    unfolding t' using each by (auto simp: list_all_iff)
  from 1 2 show ?thesis by simp
qed

lemma fenceLoop_two:
  assumes "fencePass jp parse f tree = Some (tree', ch)"
  shows "fenceLoop jp parse f True 0 tree = Some (tree', if ch then 2 else 1)"
proof -
  from fencePass_settles[OF assms] have again: "fencePass jp parse f tree' = Some (tree', False)"
    by simp
  have stop: "fenceLoop jp parse f False k t = Some (t, k)" for k t
    by (subst fenceLoop.simps) simp
  have first: "fenceLoop jp parse f True 0 tree = fenceLoop jp parse f ch 1 tree'"
    by (subst fenceLoop.simps) (simp add: assms maxPasses_def)
  show ?thesis
  proof (cases ch)
    case False
    with first stop show ?thesis by simp
  next
    case True
    have "fenceLoop jp parse f True 1 tree' = fenceLoop jp parse f False 2 tree'"
      by (subst fenceLoop.simps) (simp add: again maxPasses_def numeral_2_eq_2)
    with first True stop show ?thesis by simp
  qed
qed

lemma fenceLoop_None:
  assumes "fencePass jp parse f tree = None"
  shows "fenceLoop jp parse f True 0 tree = None"
  by (subst fenceLoop.simps) (simp add: assms maxPasses_def)


lemma fenceLoop_mono:
  assumes "fenceLoop jp parse f True 0 tree = Some r"
  shows "fenceLoop jp parse (f + k) True 0 tree = Some r"
proof (cases "fencePass jp parse f tree")
  case None
  from fenceLoop_None[OF this] assms show ?thesis by simp
next
  case (Some a)
  obtain tree' ch where a: "a = (tree', ch)" by force
  from fenceLoop_two[of jp parse f tree tree' ch] Some a assms
  have r: "r = (tree', if ch then 2 else 1)" by simp
  from fencePass_mono[of jp parse f tree "(tree', ch)" k] Some a
  have "fencePass jp parse (f + k) tree = Some (tree', ch)" by simp
  from fenceLoop_two[OF this] r show ?thesis by simp
qed

lemma finite_fuel:
  assumes "\<forall>c\<in>set cs. \<exists>f. processNode jp parse f c \<noteq> None"
  shows "\<exists>F. \<forall>c\<in>set cs. processNode jp parse F c \<noteq> None"
  using assms
proof (induction cs)
  case Nil
  then show ?case by simp
next
  case (Cons c cs)
  then obtain F where F: "\<forall>c\<in>set cs. processNode jp parse F c \<noteq> None" by auto
  from Cons.prems obtain f where f: "processNode jp parse f c \<noteq> None" by auto
  have "processNode jp parse (f + F) c \<noteq> None"
    using f processNode_mono[of jp parse f c _ F] by auto
  moreover have "\<forall>x\<in>set cs. processNode jp parse (f + F) x \<noteq> None"
  proof
    fix x assume "x \<in> set cs"
    with F obtain r where "processNode jp parse F x = Some r" by auto
    from processNode_mono[OF this, of f] show "processNode jp parse (f + F) x \<noteq> None"
      by (simp add: add.commute)
  qed
  ultimately show ?case by auto
qed

lemma children_origin:
  assumes s1: "codeStep jp parse n = (n1, c1)" and s2: "textStep jp parse n1 = (n2, c2)"
    and c: "c \<in> set (mchildren n2)"
  shows "c \<in> set (mchildren n)
       \<or> (\<exists>s t. parse s = Inr t \<and> c \<in> set (mchildren t) \<and> Suc (length s) = demand n)"
proof -
  from codeStep_cases[OF s1] show ?thesis
  proof
    assume a: "n1 = n \<and> \<not> c1 \<and> \<not> fenceCode n"
    from textStep_cases[OF s2] show ?thesis
    proof
      assume "n2 = n1 \<and> \<not> c2"
      with a c show ?thesis by simp
    next
      assume "mtype n2 = ''adfFence'' \<and> c2 \<and> mtype n1 = ''text'' \<and> valueOf n1 \<noteq> []
          \<and> (\<exists>m t. rx_exec adfFencePattern (trim (valueOf n1)) = Some m
                   \<and> parse (grp_str m 3) = Inr t \<and> mchildren n2 = mchildren t)"
      then obtain m t where b: "mtype n = ''text''" "valueOf n \<noteq> []"
          "rx_exec adfFencePattern (trim (valueOf n)) = Some m"
          "parse (grp_str m 3) = Inr t" "mchildren n2 = mchildren t"
        using a by auto
      from a b have "demand n = Suc (length (grp_str m 3))" by (simp add: demand_def)
      with b c show ?thesis by auto
    qed
  next
    assume a: "mtype n1 = ''adfFence'' \<and> c1 \<and> fenceCode n
          \<and> (mchildren n1 = mchildren n
              \<or> (\<exists>t. parse (valueOf n) = Inr t \<and> mchildren n1 = mchildren t))"
    then have "textStep jp parse n1 = (n1, False)" by (simp add: textStep_not_text)
    with s2 have n2: "n2 = n1" by simp
    from a have d: "demand n = Suc (length (valueOf n))" by (simp add: demand_def)
    from a show ?thesis
    proof (elim conjE disjE)
      assume "mchildren n1 = mchildren n"
      with c n2 show ?thesis by simp
    next
      assume "\<exists>t. parse (valueOf n) = Inr t \<and> mchildren n1 = mchildren t"
      then obtain t where "parse (valueOf n) = Inr t" "mchildren n1 = mchildren t" by auto
      with c n2 d have "parse (valueOf n) = Inr t \<and> c \<in> set (mchildren t)
                        \<and> Suc (length (valueOf n)) = demand n" by simp
      then show ?thesis by blast
    qed
  qed
qed

lemma bounded_terminates:
  assumes sh: "shrinking parse"
  shows "demand n \<le> d \<Longrightarrow> list_all (\<lambda>m. demand m \<le> d) (descendants n)
         \<Longrightarrow> \<exists>f. processNode jp parse f n \<noteq> None"
proof (induction d arbitrary: n rule: less_induct)
  case (less d)
  note outer = less.IH
  from less.prems show ?case
  proof (induction "hgt n" arbitrary: n rule: less_induct)
    case less
    obtain n1 c1 where s1: "codeStep jp parse n = (n1, c1)" by force
    obtain n2 c2 where s2: "textStep jp parse n1 = (n2, c2)" by force
    have "\<forall>c\<in>set (mchildren n2). \<exists>f. processNode jp parse f c \<noteq> None"
    proof
      fix c assume c: "c \<in> set (mchildren n2)"
      from children_origin[OF s1 s2 c]
      show "\<exists>f. processNode jp parse f c \<noteq> None"
      proof
        assume cn: "c \<in> set (mchildren n)"
        have 1: "hgt c < hgt n" using cn by (rule hgt_child)
        have 2: "demand c \<le> d"
          using less.prems(2) child_descendant[OF cn] by (auto simp: list_all_iff)
        have 3: "list_all (\<lambda>m. demand m \<le> d) (descendants c)"
          using less.prems(2) descendants_child[OF cn] by (auto simp: list_all_iff)
        from less.hyps[OF 1 2 3] show ?thesis .
      next
        assume "\<exists>s t. parse s = Inr t \<and> c \<in> set (mchildren t) \<and> Suc (length s) = demand n"
        then obtain s t where p: "parse s = Inr t" and ct: "c \<in> set (mchildren t)"
          and l: "Suc (length s) = demand n" by auto
        from sh p have all: "list_all (\<lambda>m. demand m \<le> length s) (descendants t)"
          by (auto simp: shrinking_def)
        have 1: "length s < d" using l less.prems(1) by simp
        have 2: "demand c \<le> length s"
          using all child_descendant[OF ct] by (auto simp: list_all_iff)
        have 3: "list_all (\<lambda>m. demand m \<le> length s) (descendants c)"
          using all descendants_child[OF ct] by (auto simp: list_all_iff)
        from outer[OF 1 2 3] show ?thesis .
      qed
    qed
    from finite_fuel[OF this] obtain F
      where F: "\<forall>c\<in>set (mchildren n2). processNode jp parse F c \<noteq> None" by auto
    from those_map_defined[of "mchildren n2" "processNode jp parse F", OF F]
    have "processNode jp parse (Suc F) n \<noteq> None"
      using s1 s2 by (auto split: option.splits)
    then show ?case by blast
  qed
qed

lemma demand_bound: "\<exists>d. list_all (\<lambda>m. demand m \<le> d) xs"
proof (induction xs)
  case Nil
  then show ?case by simp
next
  case (Cons x xs)
  then obtain d where d: "list_all (\<lambda>m. demand m \<le> d) xs" by auto
  have "list_all (\<lambda>m. demand m \<le> max d (demand x)) (x # xs)"
    using d by (auto simp: list_all_iff)
  then show ?case by blast
qed

lemma fencePass_terminates:
  assumes sh: "shrinking parse"
  shows "\<exists>f. fencePass jp parse f tree \<noteq> None"
proof -
  obtain d where d: "list_all (\<lambda>m. demand m \<le> d) (descendants tree)"
    using demand_bound by blast
  have "\<forall>c\<in>set (mchildren tree). \<exists>f. processNode jp parse f c \<noteq> None"
  proof
    fix c assume c: "c \<in> set (mchildren tree)"
    have 2: "demand c \<le> d"
      using d child_descendant[OF c] by (auto simp: list_all_iff)
    have 3: "list_all (\<lambda>m. demand m \<le> d) (descendants c)"
      using d descendants_child[OF c] by (auto simp: list_all_iff)
    from bounded_terminates[OF sh 2 3] show "\<exists>f. processNode jp parse f c \<noteq> None" .
  qed
  from finite_fuel[OF this] obtain F
    where F: "\<forall>c\<in>set (mchildren tree). processNode jp parse F c \<noteq> None" by auto
  from those_map_defined[of "mchildren tree" "processNode jp parse F", OF F]
  have "fencePass jp parse F tree \<noteq> None"
    by (auto simp: fencePass_def split: option.splits)
  then show ?thesis by blast
qed

text \<open>The sample processor returns shorter fences.\<close>

lemma innermost_demand: "demand (Mdast ''text'' (Some ''innermost'') [] [] []) = 0"
  by code_simp

lemma nestParse_shrinking: "shrinking nestParse"
  unfolding shrinking_def
proof (intro allI impI)
  fix s t assume p: "nestParse s = Inr t"
  show "list_all (\<lambda>m. demand m \<le> length s) (descendants t)"
  proof (cases "s = nest 0")
    case True
    with p have "t = Mdast ''root'' None
                  [Mdast ''paragraph'' None [Mdast ''text'' (Some ''innermost'') [] [] []] [] []]
                  [] []"
      by (simp add: nestParse_def)
    then show ?thesis
      using innermost_demand by (simp add: demand_def fenceCode_def)
  next
    case False
    with p obtain k where k: "find (\<lambda>k. s = nest (Suc k)) [0 ..< length s] = Some k"
        and t: "t = Mdast ''root'' None [fenceOf k] [] []"
      by (auto simp: nestParse_def split: option.splits)
    from k have s: "s = nest (Suc k)" by (auto simp: find_Some_iff)
    have "demand (fenceOf k) = Suc (length (nest k))"
      by (simp add: demand_def fenceCode_def fenceOf_def prop_str_def adfBlockTypes_def valueOf_def)
    then show ?thesis using t s by (simp add: fenceOf_def)
  qed
qed

text \<open>
  Six panels nested in one another, one more than the cap on the passes. The markup is
  \<^term>\<open>nest 6\<close>; the rewritings before parsing leave it as it is and the sample processor
  reads it as the tree \<^const>\<open>sixDeep\<close>, whose only literal fence is the outermost code block.
  The loop makes two passes: the first resolves the six layers, the second finds nothing to
  replace. No literal fence is left in the tree, and the document is six panels around the
  innermost paragraph.
\<close>

theorem six_layers_resolved_in_first_pass:
  "preprocessNestedAdfBlocks (preprocessConsecutiveHtmlComments (nest 6)) = nest 6
   \<and> nestParse (nest 6) = Inr sixDeep
   \<and> literalFences sixDeep = [fenceOf 5]
   \<and> maxPasses = 5
   \<and> fencePass noJson nestParse 8 sixDeep = Some (Mdast ''root'' None [panels 6] [] [], True)
   \<and> passesMade noJson nestParse 8 sixDeep = Some 2
   \<and> postProcessAdfFenceBlocks noJson nestParse 8 sixDeep
     = Some (Mdast ''root'' None [panels 6] [] [])
   \<and> literalFences (Mdast ''root'' None [panels 6] [] []) = []
   \<and> convertMdastToAdfSync sampleEnv nestParse 8 sixDeep
     = Some (Inr \<lparr>doc_version = 1, doc_type = ''doc'', doc_content = [adfPanels 6]\<rparr>)"
proof (intro conjI)
  show "preprocessNestedAdfBlocks (preprocessConsecutiveHtmlComments (nest 6)) = nest 6"
    by code_simp
  show "nestParse (nest 6) = Inr sixDeep"
    by code_simp
  show "literalFences sixDeep = [fenceOf 5]"
    by code_simp
  show "maxPasses = 5"
    by (simp add: maxPasses_def)
  show "fencePass noJson nestParse 8 sixDeep = Some (Mdast ''root'' None [panels 6] [] [], True)"
    by code_simp
  show "passesMade noJson nestParse 8 sixDeep = Some 2"
    by code_simp
  show "postProcessAdfFenceBlocks noJson nestParse 8 sixDeep
     = Some (Mdast ''root'' None [panels 6] [] [])"
    by code_simp
  show "literalFences (Mdast ''root'' None [panels 6] [] []) = []"
    by code_simp
  show "convertMdastToAdfSync sampleEnv nestParse 8 sixDeep
     = Some (Inr \<lparr>doc_version = 1, doc_type = ''doc'', doc_content = [adfPanels 6]\<rparr>)"
    by code_simp
qed

text \<open>
  Claim C4, amended. When the inner processor returns shorter fences, the loop of
  \<^verbatim>\<open>postProcessAdfFenceBlocks\<close> returns for every tree, given enough nested calls. The
  pass is repeated until a pass replaces nothing or 5 passes have run; a pass descends into
  the children it has just parsed, so the first pass resolves every layer of nesting, the
  second pass replaces nothing and the loop ends after one or two passes. The cap is never
  reached, and in the result no code block with a fence language is left: no layer stays
  literal because of the cap. A fence text stays a text only where the inner processor
  raised on it.
\<close>

theorem fence_loop_settles:
  assumes "shrinking parse"
  shows "\<exists>fuel tree' p.
           (\<forall>k. fenceLoop jsonParse parse (fuel + k) True 0 tree = Some (tree', p))
         \<and> 1 \<le> p \<and> p \<le> 2 \<and> p \<le> maxPasses
         \<and> (\<forall>k. fencePass jsonParse parse (fuel + k) tree' = Some (tree', False))
         \<and> list_all (quiet jsonParse parse) (descendants tree')
         \<and> list_all (\<lambda>m. \<not> fenceCode m) (descendants tree')"
proof -
  from fencePass_terminates[OF assms, of jsonParse tree] obtain f tree' ch
    where pass: "fencePass jsonParse parse f tree = Some (tree', ch)" by auto
  have passk: "fencePass jsonParse parse (f + k) tree = Some (tree', ch)" for k
    using fencePass_mono[OF pass] .
  have 1: "fenceLoop jsonParse parse (f + k) True 0 tree = Some (tree', if ch then 2 else 1)" for k
    using fenceLoop_two[OF passk] .
  have 2: "fencePass jsonParse parse (f + k) tree' = Some (tree', False)" for k
    using fencePass_settles[OF passk] by simp
  have 3: "list_all (quiet jsonParse parse) (descendants tree')"
    using fencePass_settles[OF pass] by simp
  then have 4: "list_all (\<lambda>m. \<not> fenceCode m) (descendants tree')"
    by (auto simp: list_all_iff dest: quiet_not_fenceCode)
  show ?thesis
    apply (rule exI[of _ f], rule exI[of _ tree'], rule exI[of _ "if ch then 2 else 1"])
    using 1 2 3 4 by (simp add: maxPasses_def)
qed

theorem fence_loop_settles_witness:
  "shrinking nestParse
   \<and> (\<exists>fuel. \<forall>k. fenceLoop noJson nestParse (fuel + k) True 0 sixDeep
                      = Some (Mdast ''root'' None [panels 6] [] [], 2))"
proof -
  from fence_loop_settles[OF nestParse_shrinking, of noJson sixDeep] obtain fuel tree' p
    where all: "\<And>k. fenceLoop noJson nestParse (fuel + k) True 0 sixDeep = Some (tree', p)"
    by blast
  have "fenceLoop noJson nestParse 8 True 0 sixDeep = Some (Mdast ''root'' None [panels 6] [] [], 2)"
    by code_simp
  from fenceLoop_mono[OF this, of fuel]
  have "fenceLoop noJson nestParse (fuel + 8) True 0 sixDeep
          = Some (Mdast ''root'' None [panels 6] [] [], 2)"
    by (simp add: add.commute)
  with all[of 8] have "(tree', p) = (Mdast ''root'' None [panels 6] [] [], 2)" by simp
  with all nestParse_shrinking show ?thesis by auto
qed

end
